theory Spec2Isabelle
  imports Complex_Main "HOL-Library.Word"
begin

unbundle bit_operations_syntax

section \<open>Numbers, typed arrays and errors\<close>

text \<open>
  Audio samples and clock readings are JavaScript numbers. Every sample that the codec
  handles is a finite float32; multiplying or dividing such a value by 32768 is exact in
  double precision, and a 16-bit integer divided by 32768 is exactly a float32. The model
  therefore uses \<open>real\<close> for finite numbers. The one place where the source can produce a
  non-finite number is the division by \<open>numChannels\<close> in \<open>decodeAudioData\<close>; its result
  is a \<open>jsnum\<close>. The sums of clock readings and durations are not exact: they are rounded
  to binary64, as the section on binary64 sums below describes.
\<close>

type_synonym byte = "8 word"
type_synonym int16 = "16 word"

datatype jsnum = Num real | PosInfinity | NegInfinity | NaN

datatype js_error =
    NotSupportedError
  | IndexSizeError
  | InvalidCharacterError
  | TypeError

text \<open>The \<open>/\<close> of two finite numbers.\<close>

definition js_div :: "real \<Rightarrow> real \<Rightarrow> jsnum" where
  "js_div a b =
     (if b \<noteq> 0 then Num (a / b)
      else if 0 < a then PosInfinity
      else if a < 0 then NegInfinity
      else NaN)"

text \<open>Truncation towards zero, the integer part that every integer conversion takes.\<close>

definition js_trunc :: "real \<Rightarrow> int" where
  "js_trunc x = (if 0 \<le> x then \<lfloor>x\<rfloor> else \<lceil>x\<rceil>)"

text \<open>
  Storing a number into an \<open>Int16Array\<close> element: the integer part, modulo \<open>2 ^ 16\<close>.
\<close>

definition to_int16 :: "real \<Rightarrow> int16" where
  "to_int16 x = word_of_int (js_trunc x)"

text \<open>
  Passing a number where the Web Audio interface declares \<open>unsigned long\<close>: a non-finite
  number becomes 0, a finite one its integer part modulo \<open>2 ^ 32\<close>.
\<close>

fun to_uint32 :: "jsnum \<Rightarrow> nat" where
  "to_uint32 (Num x) = nat (js_trunc x mod 2 ^ 32)"
| "to_uint32 PosInfinity = 0"
| "to_uint32 NegInfinity = 0"
| "to_uint32 NaN = 0"

text \<open>
  The length of \<open>new Float32Array(n)\<close> for a number \<open>n\<close> that is not negative: its
  integer part.
\<close>

fun to_index :: "jsnum \<Rightarrow> nat" where
  "to_index (Num x) = nat (js_trunc x)"
| "to_index PosInfinity = 0"
| "to_index NegInfinity = 0"
| "to_index NaN = 0"

text \<open>The number of iterations of \<open>for (let j = 0; j < n; j++)\<close>.\<close>

fun loop_count :: "jsnum \<Rightarrow> nat" where
  "loop_count (Num x) = nat \<lceil>x\<rceil>"
| "loop_count PosInfinity = 0"
| "loop_count NegInfinity = 0"
| "loop_count NaN = 0"

section \<open>Base64 transport (\<open>encode\<close>, \<open>decode\<close> of src/utils.ts)\<close>

definition b64_alphabet :: string where
  "b64_alphabet = ''ABCDEFGHIJKLMNOPQRSTUVWXYZabcdefghijklmnopqrstuvwxyz0123456789+/''"

definition b64_char :: "nat \<Rightarrow> char" where
  "b64_char n = b64_alphabet ! (n mod 64)"

fun b64_find :: "char \<Rightarrow> string \<Rightarrow> nat \<Rightarrow> nat option" where
  "b64_find c [] n = None"
| "b64_find c (x # xs) n = (if c = x then Some n else b64_find c xs (Suc n))"

definition b64_index :: "char \<Rightarrow> nat option" where
  "b64_index c = b64_find c b64_alphabet 0"

text \<open>
  \<open>btoa\<close> on a binary string whose code units are bytes: three bytes become four
  characters, a final group of one or two bytes is padded with \<open>=\<close>.
\<close>

fun btoa :: "byte list \<Rightarrow> string" where
  "btoa [] = []"
| "btoa [a] =
     [b64_char (unat a div 4), b64_char (unat a mod 4 * 16), CHR ''='', CHR ''='']"
| "btoa [a, b] =
     [b64_char (unat a div 4), b64_char (unat a mod 4 * 16 + unat b div 16),
      b64_char (unat b mod 16 * 4), CHR ''='']"
| "btoa (a # b # c # rest) =
     [b64_char (unat a div 4), b64_char (unat a mod 4 * 16 + unat b div 16),
      b64_char (unat b mod 16 * 4 + unat c div 64), b64_char (unat c mod 64)] @ btoa rest"

text \<open>
  \<open>atob\<close>: ASCII whitespace is removed; if the length is then a multiple of four, one or
  two trailing \<open>=\<close> are removed; a length of \<open>1\<close> modulo four or any character outside the
  alphabet is an \<open>InvalidCharacterError\<close>; every four characters give three bytes, and a
  final group of two or three characters gives one or two bytes.
\<close>

definition is_ascii_whitespace :: "char \<Rightarrow> bool" where
  "is_ascii_whitespace c \<longleftrightarrow> c \<in> set [CHR 0x09, CHR 0x0A, CHR 0x0C, CHR 0x0D, CHR 0x20]"

definition strip_padding :: "string \<Rightarrow> string" where
  "strip_padding s =
     (if length s mod 4 = 0 \<and> s \<noteq> [] \<and> last s = CHR ''=''
      then (if butlast s \<noteq> [] \<and> last (butlast s) = CHR ''=''
            then butlast (butlast s) else butlast s)
      else s)"

fun b64_indices :: "string \<Rightarrow> nat list option" where
  "b64_indices [] = Some []"
| "b64_indices (c # cs) =
     (case b64_index c of
        None \<Rightarrow> None
      | Some n \<Rightarrow> (case b64_indices cs of None \<Rightarrow> None | Some ns \<Rightarrow> Some (n # ns)))"

fun b64_bytes :: "nat list \<Rightarrow> byte list" where
  "b64_bytes (a # b # c # d # rest) =
     [of_nat (a * 4 + b div 16), of_nat (b mod 16 * 16 + c div 4), of_nat (c mod 4 * 64 + d)]
     @ b64_bytes rest"
| "b64_bytes [a, b, c] = [of_nat (a * 4 + b div 16), of_nat (b mod 16 * 16 + c div 4)]"
| "b64_bytes [a, b] = [of_nat (a * 4 + b div 16)]"
| "b64_bytes [a] = []"
| "b64_bytes [] = []"

definition atob :: "string \<Rightarrow> byte list option" where
  "atob s =
     (let t = strip_padding (filter (\<lambda>c. \<not> is_ascii_whitespace c) s)
      in if length t mod 4 = 1 then None
         else (case b64_indices t of None \<Rightarrow> None | Some ns \<Rightarrow> Some (b64_bytes ns)))"

text \<open>
  \<open>encode\<close> builds the binary string of the bytes and hands it to \<open>btoa\<close>; \<open>decode\<close>
  reads the code units of \<open>atob\<close>'s result back into a \<open>Uint8Array\<close>.
\<close>

definition encode :: "byte list \<Rightarrow> string" where
  "encode bytes = btoa bytes"

definition decode :: "string \<Rightarrow> js_error + byte list" where
  "decode base64 = (case atob base64 of None \<Rightarrow> Inl InvalidCharacterError | Some bytes \<Rightarrow> Inr bytes)"

section \<open>PCM codec (\<open>createBlob\<close> of src/utils.ts)\<close>

text \<open>
  One iteration of the loop of \<open>createBlob\<close>: the sample is scaled by 32768, clamped by
  \<open>Math.min\<close> and \<open>Math.max\<close>, and stored into the \<open>Int16Array\<close>.
\<close>

definition createBlob_sample :: "real \<Rightarrow> int16" where
  "createBlob_sample s = to_int16 (max (- 32768) (min 32767 (s * 32768)))"

definition createBlob_int16 :: "real list \<Rightarrow> int16 list" where
  "createBlob_int16 samples = map createBlob_sample samples"

text \<open>
  \<open>new Uint8Array(int16.buffer)\<close>: the bytes of the array's storage. Typed-array views
  use the byte order of the platform, little-endian on every platform that runs this
  program: the low byte of each element comes first.
\<close>

definition int16_bytes :: "int16 \<Rightarrow> byte list" where
  "int16_bytes w = [ucast w, ucast (drop_bit 8 w)]"

definition uint8_view :: "int16 list \<Rightarrow> byte list" where
  "uint8_view ws = concat (map int16_bytes ws)"

record Blob =
  blob_data :: string
  blob_mimeType :: string

definition createBlob :: "real list \<Rightarrow> Blob" where
  "createBlob samples =
     \<lparr>blob_data = encode (uint8_view (createBlob_int16 samples)),
      blob_mimeType = ''audio/pcm;rate=16000''\<rparr>"

section \<open>Audio buffer builder (\<open>decodeAudioData\<close> of src/utils.ts)\<close>

text \<open>
  The \<open>AudioContext\<close> is the platform's. What the builder needs of it is \<open>createBuffer\<close>,
  which the Web Audio interface declares as
  \<open>createBuffer(unsigned long numberOfChannels, unsigned long length, float sampleRate)\<close>
  and which raises \<open>NotSupportedError\<close> when an argument is zero or outside the range the
  implementation supports. The supported ranges are fields of the context.
\<close>

record AudioContext =
  maxChannels :: nat
  minSampleRate :: real
  maxSampleRate :: real

record AudioBuffer =
  numberOfChannels :: nat
  frames :: nat
  sampleRate :: real
  channelData :: "real list list"

definition duration :: "AudioBuffer \<Rightarrow> real" where
  "duration b = real (frames b) / sampleRate b"

definition createBuffer :: "AudioContext \<Rightarrow> jsnum \<Rightarrow> jsnum \<Rightarrow> real \<Rightarrow> js_error + AudioBuffer" where
  "createBuffer ctx nChannels len rate =
     (let c = to_uint32 nChannels; n = to_uint32 len
      in if c = 0 \<or> maxChannels ctx < c \<or> n = 0
            \<or> rate < minSampleRate ctx \<or> maxSampleRate ctx < rate
         then Inl NotSupportedError
         else Inr \<lparr>numberOfChannels = c, frames = n, sampleRate = rate,
                   channelData = replicate c (replicate n 0)\<rparr>)"

text \<open>
  \<open>buffer.copyToChannel(source, channelNumber)\<close> copies as many frames as both arrays
  have, and raises \<open>IndexSizeError\<close> for a channel the buffer does not have.
\<close>

definition copyToChannel :: "real list \<Rightarrow> nat \<Rightarrow> AudioBuffer \<Rightarrow> js_error + AudioBuffer" where
  "copyToChannel source channelNumber buffer =
     (if numberOfChannels buffer \<le> channelNumber then Inl IndexSizeError
      else Inr (buffer\<lparr>channelData := (channelData buffer)
                  [channelNumber := take (frames buffer) source
                                    @ drop (length source) (channelData buffer ! channelNumber)]\<rparr>))"

text \<open>
  \<open>new Int16Array(data.buffer, data.byteOffset, n)\<close>: \<open>n\<close> little-endian 16-bit elements
  over the bytes of \<open>data\<close>. The array that \<open>decode\<close> returns starts at offset 0 of its
  own storage.
\<close>

fun int16_view :: "byte list \<Rightarrow> nat \<Rightarrow> int16 list" where
  "int16_view (lo # hi # rest) (Suc n) = word_cat hi lo # int16_view rest n"
| "int16_view bytes n = []"

text \<open>Lines 64 to 68: each 16-bit element divided by 32768.\<close>

definition decode_sample :: "int16 \<Rightarrow> real" where
  "decode_sample w = real_of_int (sint w) / 32768.0"

definition decodeSamples :: "byte list \<Rightarrow> real list" where
  "decodeSamples bytes =
     (let byteLength = (if length bytes mod 2 = 0 then length bytes else length bytes - 1)
      in map decode_sample (int16_view bytes (byteLength div 2)))"

text \<open>
  Lines 75 to 78: the inner loop that fills \<open>channelData\<close> for channel \<open>i\<close>, one write
  per iteration. A write to a typed array outside its length is ignored, whatever the
  value read for it.
\<close>

definition fill_channel :: "real list \<Rightarrow> nat \<Rightarrow> nat \<Rightarrow> jsnum \<Rightarrow> real list" where
  "fill_channel dataFloat32 nc i bufferLength =
     fold (\<lambda>j cd. if j < length cd then cd[j := dataFloat32 ! (j * nc + i)] else cd)
       [0 ..< loop_count bufferLength]
       (replicate (to_index bufferLength) 0)"

text \<open>Lines 74 to 80: the outer loop over the channels; an error ends it.\<close>

fun copy_channels :: "real list \<Rightarrow> nat \<Rightarrow> jsnum \<Rightarrow> nat list \<Rightarrow> AudioBuffer \<Rightarrow> js_error + AudioBuffer" where
  "copy_channels dataFloat32 nc bufferLength [] buffer = Inr buffer"
| "copy_channels dataFloat32 nc bufferLength (i # is) buffer =
     (case copyToChannel (fill_channel dataFloat32 nc i bufferLength) i buffer of
        Inl e \<Rightarrow> Inl e
      | Inr buffer' \<Rightarrow> copy_channels dataFloat32 nc bufferLength is buffer')"

definition decodeAudioData :: "byte list \<Rightarrow> AudioContext \<Rightarrow> real \<Rightarrow> int \<Rightarrow> js_error + AudioBuffer" where
  "decodeAudioData bytes ctx rate numChannels =
     (let byteLength = (if length bytes mod 2 = 0 then length bytes else length bytes - 1);
          bufferLength = js_div (real byteLength / 2) (real_of_int numChannels)
      in if bufferLength = Num 0
         then createBuffer ctx (Num (real_of_int (if 0 < numChannels then numChannels else 1)))
                (Num 1) rate
         else (case createBuffer ctx (Num (real_of_int numChannels)) bufferLength rate of
                 Inl e \<Rightarrow> Inl e
               | Inr buffer \<Rightarrow>
                   (let dataFloat32 = decodeSamples bytes
                    in if numChannels = 1 then copyToChannel dataFloat32 0 buffer
                       else if 1 < numChannels
                       then copy_channels dataFloat32 (nat numChannels) bufferLength
                              [0 ..< nat numChannels] buffer
                       else createBuffer ctx (Num 1) (Num 1) rate)))"

section \<open>Binary64 sums\<close>

text \<open>
  The clock, the cursor \<open>nextStartTime\<close> and the duration of a buffer are doubles, and
  lines 1662, 1672 and 1675 add them: the result of \<open>+\<close> is the exact sum rounded to the
  nearest double, ties to the double with an even significand. The doubles end just
  below \<open>2 ^ 1024\<close>; where the rounded sum would reach \<open>2 ^ 1024\<close> the code has
  \<open>Infinity\<close>, which \<open>fl\<close> does not produce, and \<open>finite64\<close> holds of the values for
  which \<open>fl\<close> gives what the code computes.
\<close>

text \<open>The exponent of the power of two at or below \<open>\<bar>x\<bar>\<close>.\<close>

definition binade :: "real \<Rightarrow> int" where
  "binade x = \<lfloor>log 2 \<bar>x\<bar>\<rfloor>"

text \<open>
  The spacing of the doubles around \<open>x\<close>: 52 binary places below its binade, and
  \<open>2 ^ - 1074\<close> for the values below \<open>2 ^ - 1022\<close>.
\<close>

definition ulp :: "real \<Rightarrow> real" where
  "ulp x = 2 powr real_of_int (max (binade x) (- 1022) - 52)"

text \<open>The nearest integer, the even one of two that are equally near.\<close>

definition round_even :: "real \<Rightarrow> int" where
  "round_even y =
     (let f = \<lfloor>y\<rfloor>; r = y - real_of_int f
      in if r < 1 / 2 then f
         else if 1 / 2 < r then f + 1
         else if even f then f else f + 1)"

text \<open>The double nearest to \<open>x\<close>, and the sum of two doubles as \<open>+\<close> computes it.\<close>

definition fl :: "real \<Rightarrow> real" where
  "fl x = (if x = 0 then 0 else real_of_int (round_even (x / ulp x)) * ulp x)"

definition double_add :: "real \<Rightarrow> real \<Rightarrow> real" where
  "double_add x y = fl (x + y)"

definition finite64 :: "real \<Rightarrow> bool" where
  "finite64 x \<longleftrightarrow> \<bar>x\<bar> < 2 ^ 1024"

section \<open>Playback scheduler and session transport (\<open>PromptDj\<close> of src/index.tsx)\<close>

datatype PlaybackState = stopped | playing | loading | paused

record Prompt =
  promptId :: string
  color :: string
  prompt_text :: string
  weight :: real

record FilteredPrompt =
  filtered_text :: string
  filteredReason :: string

text \<open>
  The fields of a server message that \<open>onmessage\<close> reads; \<open>audioChunks\<close> holds the
  base64 \<open>data\<close> of each chunk.
\<close>

record LiveMusicServerMessage =
  setupComplete :: bool
  filteredPrompt :: "FilteredPrompt option"
  audioChunks :: "string list option"

datatype SessionCommand =
    Play
  | Pause
  | Stop
  | SetWeightedPrompts "Prompt list"

text \<open>
  A buffer source that was started: the gain node it was connected to, the time given
  to \<open>source.start\<close>, and its buffer.
\<close>

record BufferSource =
  src_node :: nat
  src_when :: real
  src_buffer :: AudioBuffer

datatype TimerCallback = LoadingToPlaying

text \<open>
  The state of the component. \<open>outputNode\<close> is the identity of the current gain node:
  \<open>pauseAudio\<close> and \<open>stopAudio\<close> disconnect it and create a new one. The automation of
  the gain value is left out; no statement below reads it. \<open>started\<close>, \<open>timers\<close>,
  \<open>toasts\<close>, \<open>console\<close> and \<open>commands\<close> record, in order, the calls of
  \<open>source.start\<close>, the pending \<open>setTimeout\<close> calls (delay in milliseconds and callback),
  the messages shown, the lines logged and the commands sent to the session.
\<close>

record PromptDj =
  prompts :: "(string \<times> Prompt) list"
  session :: bool
  audioContext :: AudioContext
  outputNode :: nat
  nextStartTime :: real
  playbackState :: PlaybackState
  filteredPrompts :: "string set"
  connectionError :: bool
  promptsLastCall :: int
  started :: "BufferSource list"
  timers :: "(real \<times> TimerCallback) list"
  toasts :: "string list"
  console :: "string list"
  commands :: "SessionCommand list"

definition dj_sampleRate :: real where
  "dj_sampleRate = 48000"

definition bufferTime :: real where
  "bufferTime = 2"

subsection \<open>\<open>throttle\<close>\<close>

text \<open>
  The closure that \<open>throttle\<close> returns owns \<open>lastCall\<close>, initially 0. A call of the
  closure reads \<open>Date.now()\<close> (the argument \<open>now\<close>, in milliseconds) and either runs
  \<open>func\<close> on the arguments and stores \<open>now\<close>, or does nothing at all.
\<close>

definition throttle :: "('a \<Rightarrow> 's \<Rightarrow> 's) \<Rightarrow> int \<Rightarrow> int \<Rightarrow> 'a \<Rightarrow> int \<times> 's \<Rightarrow> int \<times> 's" where
  "throttle func delay now args st =
     (case st of (lastCall, s) \<Rightarrow>
        (let timeSinceLastCall = now - lastCall
         in if delay \<le> timeSinceLastCall then (now, func args s) else (lastCall, s)))"

subsection \<open>Transport controls\<close>

definition pauseAudio :: "PromptDj \<Rightarrow> PromptDj" where
  "pauseAudio s =
     (let s1 = (if session s \<and> \<not> connectionError s
                then s\<lparr>commands := commands s @ [Pause]\<rparr> else s)
      in s1\<lparr>playbackState := paused, outputNode := Suc (outputNode s1), nextStartTime := 0\<rparr>)"

definition loadAudio :: "PromptDj \<Rightarrow> PromptDj" where
  "loadAudio s =
     (let s1 = (if session s \<and> \<not> connectionError s
                then s\<lparr>commands := commands s @ [Play]\<rparr> else s)
      in s1\<lparr>playbackState := loading\<rparr>)"

definition stopAudio :: "PromptDj \<Rightarrow> PromptDj" where
  "stopAudio s =
     (let s1 = (if session s \<and> \<not> connectionError s
                then s\<lparr>commands := commands s @ [Stop]\<rparr> else s)
      in s1\<lparr>playbackState := stopped, nextStartTime := 0, outputNode := Suc (outputNode s1)\<rparr>)"

subsection \<open>The callbacks of the session\<close>

text \<open>
  Lines 1658 to 1675 of \<open>onmessage\<close>: what happens to a decoded buffer. \<open>now\<close> is
  \<open>audioContext.currentTime\<close>, which is never negative. The sums are written exact
  here, as they are before the code rounds them.
\<close>

definition schedule :: "real \<Rightarrow> AudioBuffer \<Rightarrow> PromptDj \<Rightarrow> PromptDj" where
  "schedule now audioBuffer s =
     (let s1 = (if nextStartTime s = 0
                then s\<lparr>nextStartTime := now + bufferTime,
                       timers := timers s @ [(bufferTime * 1000, LoadingToPlaying)]\<rparr>
                else s);
          s2 = (if nextStartTime s1 < now
                then s1\<lparr>console := console s1 @ [''Audio buffer underrun''],
                        playbackState := loading,
                        nextStartTime := now + bufferTime\<rparr>
                else s1);
          s3 = s2\<lparr>started := started s2 @
                  [\<lparr>src_node = outputNode s2, src_when = nextStartTime s2,
                    src_buffer = audioBuffer\<rparr>]\<rparr>
      in s3\<lparr>nextStartTime := nextStartTime s3 + duration audioBuffer\<rparr>)"

text \<open>
  The test of lines 1646 to 1651 followed by the scheduling, for a buffer that is
  already decoded.
\<close>

definition onSegmentDecoded :: "real \<Rightarrow> AudioBuffer \<Rightarrow> PromptDj \<Rightarrow> PromptDj" where
  "onSegmentDecoded now audioBuffer s =
     (if playbackState s = paused \<or> playbackState s = stopped then s
      else schedule now audioBuffer s)"

text \<open>
  Lines 1658 to 1675 with every sum rounded as the code rounds it; the duration that the
  buffer reports is the double nearest to frames over sample rate. \<open>schedule\<close> above
  gives one call with the sums exact. Over several calls the rounding of the cursor can
  decide the test of line 1669, so what is said of runs is said with \<open>schedule64\<close>.
\<close>

definition schedule64 :: "real \<Rightarrow> AudioBuffer \<Rightarrow> PromptDj \<Rightarrow> PromptDj" where
  "schedule64 now audioBuffer s =
     (let s1 = (if nextStartTime s = 0
                then s\<lparr>nextStartTime := double_add now bufferTime,
                       timers := timers s @ [(bufferTime * 1000, LoadingToPlaying)]\<rparr>
                else s);
          s2 = (if nextStartTime s1 < now
                then s1\<lparr>console := console s1 @ [''Audio buffer underrun''],
                        playbackState := loading,
                        nextStartTime := double_add now bufferTime\<rparr>
                else s1);
          s3 = s2\<lparr>started := started s2 @
                  [\<lparr>src_node = outputNode s2, src_when = nextStartTime s2,
                    src_buffer = audioBuffer\<rparr>]\<rparr>
      in s3\<lparr>nextStartTime := double_add (nextStartTime s3) (fl (duration audioBuffer))\<rparr>)"

definition onSegmentDecoded64 :: "real \<Rightarrow> AudioBuffer \<Rightarrow> PromptDj \<Rightarrow> PromptDj" where
  "onSegmentDecoded64 now audioBuffer s =
     (if playbackState s = paused \<or> playbackState s = stopped then s
      else schedule64 now audioBuffer s)"

text \<open>
  The whole callback. It returns the new state and the error that it raised, if any;
  what it changed before raising stays changed.
\<close>

definition onmessage :: "real \<Rightarrow> LiveMusicServerMessage \<Rightarrow> PromptDj \<Rightarrow> PromptDj \<times> js_error option" where
  "onmessage now e s =
     (let s0 = s\<lparr>console := console s @ [''Received message from the server'']\<rparr>;
          s1 = (if setupComplete e then s0\<lparr>connectionError := False\<rparr> else s0);
          s2 = (case filteredPrompt e of
                  None \<Rightarrow> s1
                | Some fp \<Rightarrow>
                    s1\<lparr>filteredPrompts := insert (filtered_text fp) (filteredPrompts s1),
                       toasts := toasts s1 @ [filteredReason fp]\<rparr>)
      in case audioChunks e of
           None \<Rightarrow> (s2, None)
         | Some chunks \<Rightarrow>
             if playbackState s2 = paused \<or> playbackState s2 = stopped then (s2, None)
             else (case chunks of
                     [] \<Rightarrow> (s2, Some TypeError)
                   | chunk # _ \<Rightarrow>
                       (case decode chunk of
                          Inl err \<Rightarrow> (s2, Some err)
                        | Inr bytes \<Rightarrow>
                            (case decodeAudioData bytes (audioContext s2) dj_sampleRate 2 of
                               Inl err \<Rightarrow> (s2, Some err)
                             | Inr audioBuffer \<Rightarrow> (schedule now audioBuffer s2, None)))))"

definition onerror :: "PromptDj \<Rightarrow> PromptDj" where
  "onerror s =
     (let s1 = stopAudio (s\<lparr>console := console s @ [''Error occurred:''],
                            connectionError := True\<rparr>)
      in s1\<lparr>toasts := toasts s1 @ [''Connection error. Please try restarting audio.'']\<rparr>)"

definition onclose :: "PromptDj \<Rightarrow> PromptDj" where
  "onclose s =
     (let s1 = s\<lparr>console := console s @ [''Connection closed.''], connectionError := True\<rparr>;
          s2 = (if playbackState s1 \<noteq> stopped \<and> playbackState s1 \<noteq> paused
                then stopAudio s1 else s1)
      in s2\<lparr>toasts := toasts s2 @ [''Connection closed. Please try restarting audio.'']\<rparr>)"

text \<open>
  The callback given to \<open>setTimeout\<close> at line 1664, and the firing of the pending timer
  at position \<open>i\<close>: a timer fires once and is gone.
\<close>

fun run_callback :: "TimerCallback \<Rightarrow> PromptDj \<Rightarrow> PromptDj" where
  "run_callback LoadingToPlaying s =
     (if playbackState s = loading then s\<lparr>playbackState := playing\<rparr> else s)"

definition timer_fired :: "nat \<Rightarrow> PromptDj \<Rightarrow> PromptDj" where
  "timer_fired i s =
     (if i < length (timers s)
      then run_callback (snd (timers s ! i))
             (s\<lparr>timers := take i (timers s) @ drop (Suc i) (timers s)\<rparr>)
      else s)"

subsection \<open>Prompt updates\<close>

text \<open>
  The function throttled at line 1703. \<open>outcome\<close> is what awaiting
  \<open>session.setWeightedPrompts\<close> gave: \<open>None\<close> when it was accepted, the message of the
  error otherwise.
\<close>

definition setSessionPrompts_func :: "string option \<Rightarrow> PromptDj \<Rightarrow> PromptDj" where
  "setSessionPrompts_func outcome s =
     (if \<not> session s \<or> connectionError s
      then s\<lparr>console := console s @
             [''Session not available or connection error, skipping setSessionPrompts.'']\<rparr>
      else (let promptsToSend =
                  filter (\<lambda>p. prompt_text p \<notin> filteredPrompts s \<and> weight p \<noteq> 0)
                    (map snd (prompts s))
            in case outcome of
                 None \<Rightarrow> s\<lparr>commands := commands s @ [SetWeightedPrompts promptsToSend]\<rparr>
               | Some message \<Rightarrow>
                   pauseAudio (s\<lparr>toasts := toasts s @
                     [if message = [] then ''Error setting prompts.'' else message]\<rparr>)))"

definition setSessionPrompts :: "int \<Rightarrow> string option \<Rightarrow> PromptDj \<Rightarrow> PromptDj" where
  "setSessionPrompts now outcome s =
     (case throttle setSessionPrompts_func 200 now outcome (promptsLastCall s, s) of
        (lastCall, s') \<Rightarrow> s'\<lparr>promptsLastCall := lastCall\<rparr>)"

text \<open>\<open>Map.set\<close> on the prompts: an existing key keeps its place.\<close>

fun map_set :: "string \<Rightarrow> Prompt \<Rightarrow> (string \<times> Prompt) list \<Rightarrow> (string \<times> Prompt) list" where
  "map_set k v [] = [(k, v)]"
| "map_set k v ((k', v') # rest) =
     (if k = k' then (k, v) # rest else (k', v') # map_set k v rest)"

definition handlePromptChanged :: "int \<Rightarrow> string option \<Rightarrow> Prompt \<Rightarrow> PromptDj \<Rightarrow> PromptDj" where
  "handlePromptChanged now outcome detail s =
     (case map_of (prompts s) (promptId detail) of
        None \<Rightarrow> s\<lparr>console := console s @ [''prompt not found'']\<rparr>
      | Some prompt \<Rightarrow>
          setSessionPrompts now outcome
            (s\<lparr>prompts := map_set (promptId detail)
                 (prompt\<lparr>prompt_text := prompt_text detail, weight := weight detail\<rparr>)
                 (prompts s)\<rparr>))"

text \<open>
  The fields as the class initialises them, for the given prompts and audio context.
\<close>

definition initial :: "(string \<times> Prompt) list \<Rightarrow> AudioContext \<Rightarrow> PromptDj" where
  "initial ps ctx =
     \<lparr>prompts = ps, session = False, audioContext = ctx, outputNode = 0,
      nextStartTime = 0, playbackState = stopped, filteredPrompts = {},
      connectionError = True, promptsLastCall = 0, started = [], timers = [],
      toasts = [], console = [], commands = []\<rparr>"

subsection \<open>Runs\<close>

text \<open>Decoded buffers arriving one after the other, each with the clock reading of its arrival.\<close>

fun run_segments64 :: "PromptDj \<Rightarrow> (real \<times> AudioBuffer) list \<Rightarrow> PromptDj" where
  "run_segments64 s [] = s"
| "run_segments64 s ((now, b) # rest) = run_segments64 (onSegmentDecoded64 now b s) rest"

text \<open>
  The test of line 1669 succeeds exactly when the cursor is initialised and behind the
  clock: a cursor that is 0 has just been set to \<open>now + bufferTime\<close> by line 1662.
\<close>

definition underrun :: "PromptDj \<Rightarrow> real \<Rightarrow> bool" where
  "underrun s now \<longleftrightarrow> nextStartTime s \<noteq> 0 \<and> nextStartTime s < now"

text \<open>
  The same test on the value that line 1669 reads when the sum of line 1662 is rounded,
  and the runs in which it fails at every arrival.
\<close>

definition underrun64 :: "PromptDj \<Rightarrow> real \<Rightarrow> bool" where
  "underrun64 s now \<longleftrightarrow>
     (if nextStartTime s = 0 then double_add now bufferTime else nextStartTime s) < now"

fun no_underrun64 :: "PromptDj \<Rightarrow> (real \<times> AudioBuffer) list \<Rightarrow> bool" where
  "no_underrun64 s [] = True"
| "no_underrun64 s ((now, b) # rest) =
     (\<not> underrun64 s now \<and> no_underrun64 (onSegmentDecoded64 now b s) rest)"

text \<open>The runs in which every sum that the code forms is finite.\<close>

fun finite_run64 :: "PromptDj \<Rightarrow> (real \<times> AudioBuffer) list \<Rightarrow> bool" where
  "finite_run64 s [] = True"
| "finite_run64 s ((now, b) # rest) =
     (finite64 (double_add now bufferTime) \<and> finite64 (fl (duration b))
      \<and> finite64 (nextStartTime (onSegmentDecoded64 now b s))
      \<and> finite_run64 (onSegmentDecoded64 now b s) rest)"

text \<open>Arrivals and timer firings in any order.\<close>

datatype event = Segment real AudioBuffer | Timer nat

fun step64 :: "event \<Rightarrow> PromptDj \<Rightarrow> PromptDj" where
  "step64 (Segment now b) s = onSegmentDecoded64 now b s"
| "step64 (Timer i) s = timer_fired i s"

definition run64 :: "PromptDj \<Rightarrow> event list \<Rightarrow> PromptDj" where
  "run64 s evs = fold step64 evs s"

fun is_segment :: "event \<Rightarrow> bool" where
  "is_segment (Segment now b) = True"
| "is_segment (Timer i) = False"

text \<open>The clock is never negative and a buffer has a duration that is not negative.\<close>

fun wf_event :: "event \<Rightarrow> bool" where
  "wf_event (Segment now b) = (0 \<le> now \<and> 0 \<le> duration b)"
| "wf_event (Timer i) = True"

text \<open>A sequence of calls of a throttled function, each with its reading of \<open>Date.now()\<close>.\<close>

fun throttle_calls :: "('a \<Rightarrow> 's \<Rightarrow> 's) \<Rightarrow> int \<Rightarrow> (int \<times> 'a) list \<Rightarrow> int \<times> 's \<Rightarrow> int \<times> 's" where
  "throttle_calls func delay [] st = st"
| "throttle_calls func delay ((now, args) # rest) st =
     throttle_calls func delay rest (throttle func delay now args st)"

section \<open>What the specification says, for comparison\<close>

text \<open>
  The sample encoding in the specification's words:
  \<open>round(clamp(s, -1, 1) * 32768)\<close>, clamped to \<open>[-32768, 32767]\<close>.
\<close>

definition spec_encodeSample :: "real \<Rightarrow> int" where
  "spec_encodeSample s = max (- 32768) (min 32767 (round (max (- 1) (min 1 s) * 32768)))"

text \<open>
  The wire sample at flat index \<open>k\<close>: the little-endian 16-bit integer at byte offset
  \<open>2 * k\<close>, divided by 32768.
\<close>

definition wire_sample :: "byte list \<Rightarrow> nat \<Rightarrow> real" where
  "wire_sample bytes k = decode_sample (word_cat (bytes ! (2 * k + 1)) (bytes ! (2 * k)))"

text \<open>
  The calls that a leading-edge throttle lets through: a call passes when at least
  \<open>delay\<close> has gone by since the last call that passed.
\<close>

fun forwarded :: "int \<Rightarrow> int \<Rightarrow> (int \<times> 'a) list \<Rightarrow> (int \<times> 'a) list" where
  "forwarded delay lastCall [] = []"
| "forwarded delay lastCall ((now, args) # rest) =
     (if delay \<le> now - lastCall then (now, args) # forwarded delay now rest
      else forwarded delay lastCall rest)"

section \<open>Auxiliary functions for the proofs\<close>

text \<open>\<open>btoa\<close> without the padding, and the alphabet positions it writes.\<close>

fun btoa_nopad :: "byte list \<Rightarrow> string" where
  "btoa_nopad [] = []"
| "btoa_nopad [a] = [b64_char (unat a div 4), b64_char (unat a mod 4 * 16)]"
| "btoa_nopad [a, b] =
     [b64_char (unat a div 4), b64_char (unat a mod 4 * 16 + unat b div 16),
      b64_char (unat b mod 16 * 4)]"
| "btoa_nopad (a # b # c # rest) =
     [b64_char (unat a div 4), b64_char (unat a mod 4 * 16 + unat b div 16),
      b64_char (unat b mod 16 * 4 + unat c div 64), b64_char (unat c mod 64)] @ btoa_nopad rest"

fun btoa_indices :: "byte list \<Rightarrow> nat list" where
  "btoa_indices [] = []"
| "btoa_indices [a] = [unat a div 4, unat a mod 4 * 16]"
| "btoa_indices [a, b] = [unat a div 4, unat a mod 4 * 16 + unat b div 16, unat b mod 16 * 4]"
| "btoa_indices (a # b # c # rest) =
     [unat a div 4, unat a mod 4 * 16 + unat b div 16,
      unat b mod 16 * 4 + unat c div 64, unat c mod 64] @ btoa_indices rest"

text \<open>The states in which decoded audio is accepted.\<close>

definition accepting :: "PromptDj \<Rightarrow> bool" where
  "accepting s \<longleftrightarrow> playbackState s = loading \<or> playbackState s = playing"

text \<open>
  Sources placed one after the other from a first start time, each at the rounded sum of
  its predecessor's start and duration, and the start time of the first buffer of a run
  of arrivals.
\<close>

fun expected64 :: "nat \<Rightarrow> real \<Rightarrow> (real \<times> AudioBuffer) list \<Rightarrow> BufferSource list" where
  "expected64 node start [] = []"
| "expected64 node start ((now, b) # rest) =
     \<lparr>src_node = node, src_when = start, src_buffer = b\<rparr>
     # expected64 node (double_add start (fl (duration b))) rest"

definition first_start64 :: "PromptDj \<Rightarrow> (real \<times> AudioBuffer) list \<Rightarrow> real" where
  "first_start64 s arrivals =
     (if nextStartTime s = 0 then double_add (fst (hd arrivals)) bufferTime else nextStartTime s)"

section \<open>Example values\<close>

text \<open>
  A context with the limits of a common browser, the state of the component after a
  successful connection, a stereo buffer of two frames and a prompt.
\<close>

definition demo_context :: AudioContext where
  "demo_context = \<lparr>maxChannels = 32, minSampleRate = 3000, maxSampleRate = 768000\<rparr>"

definition demo_buffer :: AudioBuffer where
  "demo_buffer =
     \<lparr>numberOfChannels = 2, frames = 2, sampleRate = 48000,
      channelData = [[1 / 32768, 3 / 32768], [1 / 16384, 1 / 8192]]\<rparr>"

text \<open>A buffer of 9600 frames, a fifth of a second.\<close>

definition demo_chunk :: AudioBuffer where
  "demo_chunk =
     \<lparr>numberOfChannels = 2, frames = 9600, sampleRate = 48000,
      channelData = replicate 2 (replicate 9600 0)\<rparr>"

definition demo_prompt :: Prompt where
  "demo_prompt =
     \<lparr>promptId = ''prompt-0'', color = ''#9900ff'', prompt_text = ''Bossa Nova'', weight = 0\<rparr>"

definition demo_dj :: PromptDj where
  "demo_dj = (initial [(''prompt-0'', demo_prompt)] demo_context)
               \<lparr>session := True, connectionError := False\<rparr>"

section \<open>The base64 transport is lossless\<close>

lemma b64_all: "list_all (\<lambda>n. b64_index (b64_char n) = Some n \<and> \<not> is_ascii_whitespace (b64_char n) \<and> b64_char n \<noteq> CHR ''='') [0..<64]"
  by code_simp

lemma b64_char_props:
  assumes "n < 64"
  shows "b64_index (b64_char n) = Some n" "\<not> is_ascii_whitespace (b64_char n)" "b64_char n \<noteq> CHR ''=''"
proof -
  have "n \<in> set [0..<64]" using assms by simp
  with b64_all show "b64_index (b64_char n) = Some n" "\<not> is_ascii_whitespace (b64_char n)" "b64_char n \<noteq> CHR ''=''"
    unfolding list_all_iff by blast+
qed

lemma b64_char_mod: "b64_char (n mod 64) = b64_char n"
  by (simp add: b64_char_def)

lemma b64_char_props':
  shows "b64_index (b64_char n) = Some (n mod 64)" "\<not> is_ascii_whitespace (b64_char n)" "b64_char n \<noteq> CHR ''=''"
  using b64_char_props [of "n mod 64"] by (simp_all add: b64_char_mod)

lemma btoa_len: "length (btoa bs) mod 4 = 0"
  by (induction bs rule: btoa.induct) simp_all

lemma btoa_len4: "bs \<noteq> [] \<Longrightarrow> 4 \<le> length (btoa bs)"
  by (induction bs rule: btoa.induct) simp_all

lemma pad_not_ws: "\<not> is_ascii_whitespace (CHR ''='')"
  by (simp add: is_ascii_whitespace_def)

lemma btoa_no_ws: "filter (\<lambda>c. \<not> is_ascii_whitespace c) (btoa bs) = btoa bs"
  by (induction bs rule: btoa.induct) (simp_all add: b64_char_props' pad_not_ws)

lemma strip_padding_append:
  assumes "length xs mod 4 = 0" "2 \<le> length ys"
  shows "strip_padding (xs @ ys) = xs @ strip_padding ys"
proof -
  have ne: "ys \<noteq> []" "butlast ys \<noteq> []" using assms(2) by (cases ys; cases "tl ys"; auto)+
  have m: "length (xs @ ys) mod 4 = length ys mod 4"
    using assms(1) by (simp add: mod_add_left_eq [symmetric])
  show ?thesis
    using ne m by (simp add: strip_padding_def butlast_append)
qed

lemma strip_btoa: "strip_padding (btoa bs) = btoa_nopad bs"
proof (induction bs rule: btoa.induct)
  case (4 a b c rest)
  show ?case
  proof (cases "rest = []")
    case True
    then show ?thesis by (simp add: strip_padding_def b64_char_props')
  next
    case False
    then have "2 \<le> length (btoa rest)" using btoa_len4 [of rest] by simp
    then have "strip_padding ([b64_char (unat a div 4), b64_char (unat a mod 4 * 16 + unat b div 16),
      b64_char (unat b mod 16 * 4 + unat c div 64), b64_char (unat c mod 64)] @ btoa rest)
      = [b64_char (unat a div 4), b64_char (unat a mod 4 * 16 + unat b div 16),
      b64_char (unat b mod 16 * 4 + unat c div 64), b64_char (unat c mod 64)] @ strip_padding (btoa rest)"
      by (intro strip_padding_append) simp_all
    with 4 show ?thesis by simp
  qed
qed (simp_all add: strip_padding_def b64_char_props')

lemma nopad_len: "length (btoa_nopad bs) mod 4 \<noteq> 1"
  by (induction bs rule: btoa_nopad.induct) simp_all

lemma div_mult_add: "(b::nat) < n \<Longrightarrow> (a * n + b) div n = a"
  by simp

lemma mod_mult_add: "(b::nat) < n \<Longrightarrow> (a * n + b) mod n = b"
  by simp

lemma byte_bounds:
  fixes a :: byte
  shows "unat a div 4 < 64" "unat a div 16 < 16" "unat a div 64 < 4"
proof -
  have "unat a < 256" using unsigned_less [of a] by simp
  then show "unat a div 4 < 64" "unat a div 16 < 16" "unat a div 64 < 4"
    by (simp_all add: div_less_iff_less_mult)
qed

lemma byte_parts:
  fixes a b c :: byte
  shows "of_nat (unat a div 4 * 4 + (unat a mod 4 * 16 + unat b div 16) div 16) = a"
    and "of_nat ((unat a mod 4 * 16 + unat b div 16) mod 16 * 16 + (unat b mod 16 * 4 + unat c div 64) div 4) = b"
    and "of_nat ((unat b mod 16 * 4 + unat c div 64) mod 4 * 64 + unat c mod 64) = c"
    and "of_nat ((unat a mod 4 * 16 + unat b div 16) mod 16 * 16 + (unat b mod 16 * 4) div 4) = b"
    and "of_nat (unat a div 4 * 4 + (unat a mod 4 * 16) div 16) = a"
  by (simp_all add: div_mult_add mod_mult_add byte_bounds)

lemma idx_small:
  fixes a b c :: byte
  shows "unat a div 4 mod 64 = unat a div 4"
    and "(unat a mod 4 * 16 + unat b div 16) mod 64 = unat a mod 4 * 16 + unat b div 16"
    and "(unat b mod 16 * 4 + unat c div 64) mod 64 = unat b mod 16 * 4 + unat c div 64"
    and "(unat a mod 4 * 16) mod 64 = unat a mod 4 * 16"
    and "(unat b mod 16 * 4) mod 64 = unat b mod 16 * 4"
proof -
  have m: "unat a mod 4 < 4" "unat b mod 16 < 16" by simp_all
  note bb = byte_bounds(2) [of b] byte_bounds(3) [of c]
  show "unat a div 4 mod 64 = unat a div 4" by (simp add: byte_bounds)
  show "(unat a mod 4 * 16 + unat b div 16) mod 64 = unat a mod 4 * 16 + unat b div 16"
    using m(1) bb(1) by (intro mod_less) linarith
  show "(unat b mod 16 * 4 + unat c div 64) mod 64 = unat b mod 16 * 4 + unat c div 64"
    using m(2) bb(2) by (intro mod_less) linarith
  show "(unat a mod 4 * 16) mod 64 = unat a mod 4 * 16"
    using m(1) by (intro mod_less) linarith
  show "(unat b mod 16 * 4) mod 64 = unat b mod 16 * 4"
    using m(2) by (intro mod_less) linarith
qed

lemma nopad_indices: "b64_indices (btoa_nopad bs) = Some (btoa_indices bs)"
  by (induction bs rule: btoa_nopad.induct) (simp_all add: b64_char_props' idx_small)

lemma indices_bytes: "b64_bytes (btoa_indices bs) = bs"
proof (induction bs rule: btoa_indices.induct)
  case 1
  show ?case by simp
next
  case (2 a)
  show ?case unfolding btoa_indices.simps b64_bytes.simps byte_parts ..
next
  case (3 a b)
  show ?case unfolding btoa_indices.simps b64_bytes.simps byte_parts ..
next
  case (4 a b c rest)
  then show ?case unfolding btoa_indices.simps append_Cons append_Nil b64_bytes.simps byte_parts by simp
qed

lemma atob_btoa: "atob (btoa bs) = Some bs"
  using nopad_len [of bs]
  by (simp add: atob_def btoa_no_ws strip_btoa nopad_indices indices_bytes)

lemma decode_encode: "decode (encode bytes) = Inr bytes"
  by (simp add: decode_def encode_def atob_btoa)

section \<open>The PCM codec\<close>

lemma js_trunc_range:
  assumes "- 32768 \<le> x" "x \<le> 32767"
  shows "- 32768 \<le> js_trunc x \<and> js_trunc x \<le> 32767"
  using assms unfolding js_trunc_def by (auto simp: le_floor_iff floor_le_iff ceiling_le_iff le_ceiling_iff) 

lemma sint_sample: "sint (createBlob_sample s) = js_trunc (max (- 32768) (min 32767 (s * 32768)))"
proof -
  let ?x = "max (- 32768) (min 32767 (s * 32768))"
  have r: "- 32768 \<le> js_trunc ?x \<and> js_trunc ?x \<le> 32767"
    by (rule js_trunc_range) auto
  have "sint (word_of_int (js_trunc ?x) :: int16) = signed_take_bit 15 (js_trunc ?x)"
    by (simp add: sint_sbintrunc')
  also have "\<dots> = js_trunc ?x"
    by (rule signed_take_bit_int_eq_self) (use r in auto)
  finally show ?thesis unfolding createBlob_sample_def to_int16_def .
qed

lemma cat_bytes: "word_cat (ucast (drop_bit 8 w) :: byte) (ucast w :: byte) = (w :: int16)"
  by (rule bit_word_eqI) (auto simp: bit_word_cat_iff bit_ucast_iff bit_drop_bit_eq)

lemma le_bytes: "uint (ucast w :: byte) + 256 * uint (ucast (drop_bit 8 w) :: byte) = uint (w::int16)"
proof -
  have "uint w < 65536" using uint_bounded [of w] by simp
  then have "uint w div 256 < 256" by simp
  then have "(uint w div 256) mod 256 = uint w div 256"
    by (simp add: div_int_pos_iff)
  then show ?thesis
    by (simp add: unsigned_ucast_eq unsigned_drop_bit_eq take_bit_eq_mod drop_bit_eq_div uint_div_distrib)
qed

lemma view_roundtrip: "int16_view (uint8_view ws) (length ws) = ws"
  by (induction ws) (simp_all add: uint8_view_def int16_bytes_def cat_bytes)

lemma len_view: "length (uint8_view ws) = 2 * length ws"
  by (induction ws) (simp_all add: uint8_view_def int16_bytes_def)

lemma decodeSamples_encode: "decodeSamples (uint8_view ws) = map decode_sample ws"
  by (simp add: decodeSamples_def len_view view_roundtrip)

lemma trunc_err: "\<bar>real_of_int (js_trunc x) - x\<bar> < 1"
  unfolding js_trunc_def by (auto; linarith)

lemma sample_err:
  assumes "- 1 \<le> s" "s \<le> 1"
  shows "\<bar>decode_sample (createBlob_sample s) - s\<bar> \<le> 1 / 32768"
proof (cases "s * 32768 \<le> 32767")
  case True
  then have "max (- 32768) (min 32767 (s * 32768)) = s * 32768" using assms by auto
  then have "sint (createBlob_sample s) = js_trunc (s * 32768)" by (simp add: sint_sample)
  moreover have "\<bar>real_of_int (js_trunc (s * 32768)) - s * 32768\<bar> < 1" by (rule trunc_err)
  ultimately show ?thesis unfolding decode_sample_def by (simp add: field_simps abs_if split: if_splits)
next
  case False
  then have "max (- 32768) (min 32767 (s * 32768)) = 32767" by auto
  then have "sint (createBlob_sample s) = 32767" by (simp add: sint_sample js_trunc_def)
  then show ?thesis using False assms unfolding decode_sample_def by (simp add: field_simps abs_if)
qed

lemma int16_bytes_nth:
  "length (int16_bytes w) = 2
   \<and> uint (int16_bytes w ! 0) + 256 * uint (int16_bytes w ! 1) = uint w"
  using le_bytes [of w] by (simp add: int16_bytes_def)

lemma decode_createBlob:
  "decode (blob_data (createBlob samples)) = Inr (uint8_view (createBlob_int16 samples))"
  by (simp add: createBlob_def decode_encode)

text \<open>
  C5, as the code has it. \<open>createBlob\<close> scales each sample by 32768, clamps the product
  to \<open>[-32768, 32767]\<close> and stores it into an \<open>Int16Array\<close>, which keeps the integer
  part: the sample is truncated towards zero, not rounded. The result always lies in
  \<open>[-32768, 32767]\<close>; each integer is written low byte first, and the \<open>data\<close> of the blob
  is the base64 text of exactly these bytes.
\<close>

theorem createBlob_truncates:
  "sint (createBlob_sample s) = js_trunc (max (- 32768) (min 32767 (s * 32768)))
   \<and> - 32768 \<le> sint (createBlob_sample s) \<and> sint (createBlob_sample s) \<le> 32767
   \<and> decode (blob_data (createBlob samples))
       = Inr (concat (map (\<lambda>s. int16_bytes (createBlob_sample s)) samples))
   \<and> length (int16_bytes w) = 2
   \<and> uint (int16_bytes w ! 0) + 256 * uint (int16_bytes w ! 1) = uint w"
proof -
  have "- 32768 \<le> js_trunc (max (- 32768) (min 32767 (s * 32768)))
      \<and> js_trunc (max (- 32768) (min 32767 (s * 32768))) \<le> 32767"
    by (rule js_trunc_range) auto
  then show ?thesis
    using int16_bytes_nth [of w]
    by (simp add: sint_sample decode_createBlob uint8_view_def createBlob_int16_def comp_def)
qed

text \<open>
  C5 as the specification words it, with \<open>round\<close>, fails for the sample \<open>3 / 131072\<close>,
  whose scaled value is \<open>0.75\<close>: the specification's formula gives 1, the code stores 0.
\<close>

theorem createBlob_rounding_counterexample:
  "sint (createBlob_sample (3 / 131072)) = 0 \<and> spec_encodeSample (3 / 131072) = 1"
  by (simp add: createBlob_sample_def to_int16_def js_trunc_def spec_encodeSample_def round_def)

text \<open>
  C8. For samples in \<open>[-1, 1]\<close>, decoding the wire text of \<open>createBlob\<close> with \<open>decode\<close>
  and the sample loop of \<open>decodeAudioData\<close> gives back as many samples, each within
  \<open>1 / 32768\<close> of the original.
\<close>

theorem roundtrip_error:
  assumes "\<forall>x \<in> set samples. - 1 \<le> x \<and> x \<le> 1"
  shows "\<exists>bytes. decode (blob_data (createBlob samples)) = Inr bytes
         \<and> length (decodeSamples bytes) = length samples
         \<and> (\<forall>i < length samples. \<bar>decodeSamples bytes ! i - samples ! i\<bar> \<le> 1 / 32768)"
proof -
  let ?bytes = "uint8_view (createBlob_int16 samples)"
  have d: "decodeSamples ?bytes = map (\<lambda>s. decode_sample (createBlob_sample s)) samples"
    by (simp add: decodeSamples_encode createBlob_int16_def)
  have "\<forall>i < length samples. \<bar>decodeSamples ?bytes ! i - samples ! i\<bar> \<le> 1 / 32768"
  proof (intro allI impI)
    fix i assume i: "i < length samples"
    then have "samples ! i \<in> set samples" by simp
    then have "- 1 \<le> samples ! i" "samples ! i \<le> 1" using assms by auto
    then have "\<bar>decode_sample (createBlob_sample (samples ! i)) - samples ! i\<bar> \<le> 1 / 32768"
      by (rule sample_err)
    then show "\<bar>decodeSamples ?bytes ! i - samples ! i\<bar> \<le> 1 / 32768"
      using i by (simp only: d nth_map)
  qed
  then show ?thesis using d by (simp add: decode_createBlob)
qed

theorem roundtrip_error_witness:
  "\<exists>bytes. decode (blob_data (createBlob [1, - 1, 1 / 2, 3 / 131072])) = Inr bytes
      \<and> length (decodeSamples bytes) = 4
      \<and> \<bar>decodeSamples bytes ! 0 - 1\<bar> \<le> 1 / 32768
      \<and> \<bar>decodeSamples bytes ! 1 - (- 1)\<bar> \<le> 1 / 32768
      \<and> \<bar>decodeSamples bytes ! 2 - 1 / 2\<bar> \<le> 1 / 32768
      \<and> \<bar>decodeSamples bytes ! 3 - 3 / 131072\<bar> \<le> 1 / 32768"
proof -
  have h: "\<forall>x \<in> set [1, - 1, 1 / 2, 3 / 131072 :: real]. - 1 \<le> x \<and> x \<le> 1" by simp
  from roundtrip_error [OF h] obtain bytes where
    b: "decode (blob_data (createBlob [1, - 1, 1 / 2, 3 / 131072])) = Inr bytes"
      "length (decodeSamples bytes) = length [1, - 1, 1 / 2, 3 / 131072 :: real]"
      "\<forall>i < length [1, - 1, 1 / 2, 3 / 131072 :: real].
          \<bar>decodeSamples bytes ! i - [1, - 1, 1 / 2, 3 / 131072] ! i\<bar> \<le> 1 / 32768"
    by blast
  have "\<bar>decodeSamples bytes ! 0 - 1\<bar> \<le> 1 / 32768" using b(3) [rule_format, of 0] by simp
  moreover have "\<bar>decodeSamples bytes ! 1 - (- 1)\<bar> \<le> 1 / 32768"
    using b(3) [rule_format, of 1] by simp
  moreover have "\<bar>decodeSamples bytes ! 2 - 1 / 2\<bar> \<le> 1 / 32768"
    using b(3) [rule_format, of 2] by simp
  moreover have "\<bar>decodeSamples bytes ! 3 - 3 / 131072\<bar> \<le> 1 / 32768"
    using b(3) [rule_format, of 3] by simp
  ultimately show ?thesis using b(1,2) by auto
qed

section \<open>Rounding to binary64\<close>

lemma ulp_pos: "0 < ulp x"
  by (simp add: ulp_def)

lemma round_even_near: "\<bar>real_of_int (round_even y) - y\<bar> \<le> 1 / 2"
  unfolding round_even_def Let_def by (auto; linarith)

lemma round_even_ge_floor: "\<lfloor>y\<rfloor> \<le> round_even y"
  unfolding round_even_def Let_def by auto

lemma round_even_of_int: "round_even (real_of_int n) = n"
  unfolding round_even_def Let_def by simp

lemma fl_error: "\<bar>fl x - x\<bar> \<le> ulp x / 2"
proof (cases "x = 0")
  case True
  then show ?thesis using ulp_pos [of x] by (simp add: fl_def)
next
  case False
  have "\<bar>fl x - x\<bar> = \<bar>real_of_int (round_even (x / ulp x)) - x / ulp x\<bar> * ulp x"
  proof -
    have "fl x - x = (real_of_int (round_even (x / ulp x)) - x / ulp x) * ulp x"
      using False ulp_pos [of x] by (simp add: fl_def field_simps)
    then show ?thesis using ulp_pos [of x] by (simp add: abs_mult)
  qed
  also have "\<dots> \<le> 1 / 2 * ulp x"
    using round_even_near [of "x / ulp x"] ulp_pos [of x] by (intro mult_right_mono) simp_all
  finally show ?thesis by simp
qed

lemma fl_nonneg: "0 \<le> x \<Longrightarrow> 0 \<le> fl x"
proof -
  assume x: "0 \<le> x"
  have "0 \<le> x / ulp x" using x ulp_pos [of x] by simp
  then have "0 \<le> \<lfloor>x / ulp x\<rfloor>" by simp
  then have "0 \<le> round_even (x / ulp x)" using round_even_ge_floor [of "x / ulp x"] by linarith
  then show ?thesis using ulp_pos [of x] by (simp add: fl_def)
qed

lemma binade_bounds:
  assumes "x \<noteq> 0"
  shows "2 powr real_of_int (binade x) \<le> \<bar>x\<bar>" "\<bar>x\<bar> < 2 powr real_of_int (binade x + 1)"
proof -
  have p: "0 < \<bar>x\<bar>" using assms by simp
  have "\<lfloor>log 2 \<bar>x\<bar>\<rfloor> = binade x" by (simp add: binade_def)
  then have "2 powr real_of_int (binade x) \<le> \<bar>x\<bar> \<and> \<bar>x\<bar> < 2 powr real_of_int (binade x + 1)"
    using floor_log_eq_powr_iff [OF p, of 2 "binade x"] by simp
  then show "2 powr real_of_int (binade x) \<le> \<bar>x\<bar>" "\<bar>x\<bar> < 2 powr real_of_int (binade x + 1)"
    by simp_all
qed

lemma binade_eq:
  assumes "2 powr real_of_int k \<le> \<bar>x\<bar>" "\<bar>x\<bar> < 2 powr real_of_int (k + 1)"
  shows "binade x = k"
proof -
  have "0 < 2 powr real_of_int k" by simp
  then have p: "0 < \<bar>x\<bar>" using assms(1) by linarith
  show ?thesis unfolding binade_def
    using floor_log_eq_powr_iff [OF p, of 2 k] assms by simp
qed

lemma binade_ge:
  assumes "2 powr real_of_int k \<le> \<bar>x\<bar>"
  shows "k \<le> binade x"
proof (rule ccontr)
  assume "\<not> k \<le> binade x"
  then have "binade x + 1 \<le> k" by simp
  then have "2 powr real_of_int (binade x + 1) \<le> 2 powr real_of_int k" by simp
  moreover have "x \<noteq> 0" using assms powr_gt_zero [of 2 "real_of_int k"] by auto
  ultimately show False using binade_bounds(2) [of x] assms by linarith
qed

text \<open>A value of at least 2 is rounded to a value of at least 2.\<close>

lemma fl_ge_2:
  assumes "2 \<le> x"
  shows "2 \<le> fl x"
proof -
  have x0: "x \<noteq> 0" "\<bar>x\<bar> = x" using assms by simp_all
  have "2 powr real_of_int 1 \<le> \<bar>x\<bar>" using assms by simp
  then have k1: "1 \<le> binade x" by (rule binade_ge)
  then have u: "ulp x = 2 powr real_of_int (binade x - 52)"
    by (simp add: ulp_def max_def)
  have "2 powr real_of_int (binade x) \<le> x" using binade_bounds(1) [OF x0(1)] x0(2) by simp
  then have "2 powr real_of_int (binade x) / ulp x \<le> x / ulp x"
    using ulp_pos [of x] by (simp add: divide_right_mono)
  moreover have "2 powr real_of_int (binade x) / ulp x = 2 powr 52"
    unfolding u by (simp flip: powr_diff)
  ultimately have "real_of_int (2 ^ 52) \<le> x / ulp x" by simp
  then have "2 ^ 52 \<le> \<lfloor>x / ulp x\<rfloor>" by (simp only: le_floor_iff)
  then have "2 ^ 52 \<le> round_even (x / ulp x)"
    using round_even_ge_floor [of "x / ulp x"] by linarith
  then have "real_of_int (2 ^ 52) * ulp x \<le> real_of_int (round_even (x / ulp x)) * ulp x"
    using ulp_pos [of x] by (intro mult_right_mono) simp_all
  moreover have "real_of_int (2 ^ 52) * ulp x = 2 powr real_of_int (binade x)"
    unfolding u by (simp add: powr_diff)
  moreover have "2 \<le> 2 powr real_of_int (binade x)"
  proof -
    have "(2::real) powr 1 \<le> 2 powr real_of_int (binade x)"
      using k1 by (intro powr_mono) simp_all
    then show ?thesis by simp
  qed
  ultimately show ?thesis using x0(1) by (simp add: fl_def)
qed

text \<open>From 2 upwards, the spacing of the doubles is at most \<open>2 ^ - 52\<close> of the value.\<close>

lemma ulp_le:
  assumes "2 \<le> x"
  shows "ulp x \<le> x / 2 ^ 52"
proof -
  have x0: "x \<noteq> 0" "\<bar>x\<bar> = x" using assms by simp_all
  have "2 powr real_of_int 1 \<le> \<bar>x\<bar>" using assms by simp
  then have k1: "1 \<le> binade x" by (rule binade_ge)
  then have u: "ulp x = 2 powr real_of_int (binade x - 52)"
    by (simp add: ulp_def max_def)
  have "ulp x = 2 powr real_of_int (binade x) / 2 powr 52"
    unfolding u by (simp add: powr_diff)
  also have "\<dots> \<le> x / 2 powr 52"
    using binade_bounds(1) [OF x0(1)] x0(2) by (simp add: divide_right_mono)
  finally show ?thesis by simp
qed

text \<open>Rounding a value whose binade is known.\<close>

lemma fl_eval:
  assumes "2 powr real_of_int k \<le> \<bar>x\<bar>" "\<bar>x\<bar> < 2 powr real_of_int (k + 1)" "- 1022 \<le> k"
  shows "fl x = real_of_int (round_even (x / 2 powr real_of_int (k - 52))) * 2 powr real_of_int (k - 52)"
proof -
  have b: "binade x = k" using assms(1,2) by (rule binade_eq)
  have "0 < 2 powr real_of_int k" by simp
  then have "x \<noteq> 0" using assms(1) by auto
  then show ?thesis using assms(3) by (simp add: fl_def ulp_def b max_def)
qed

text \<open>The values of \<open>fl\<close> that the examples below need.\<close>

lemma fl_value_0: "fl (1 / 5) = 3602879701896397 / 18014398509481984"
  using fl_eval [of "- 3" "1 / 5"] by (simp add: round_even_def powr_neg_numeral)

lemma fl_value_1: "fl (39631676720860365 / 18014398509481984) = 2476979795053773 / 1125899906842624"
  using fl_eval [of "1" "39631676720860365 / 18014398509481984"] by (simp add: round_even_def powr_neg_numeral)

lemma fl_value_2: "fl (43234556422756765 / 18014398509481984) = 1351079888211149 / 562949953421312"
  using fl_eval [of "1" "43234556422756765 / 18014398509481984"] by (simp add: round_even_def powr_neg_numeral)

lemma fl_value_3: "fl (162259276829213366994457712184525 / 18014398509481984) = 9007199254740992"
  using fl_eval [of "53" "162259276829213366994457712184525 / 18014398509481984"] by (simp add: round_even_def powr_neg_numeral)

lemma fl_value_4: "fl (4165829655317709 / 562949953421312) = 4165829655317709 / 562949953421312"
  using fl_eval [of "2" "4165829655317709 / 562949953421312"] by (simp add: round_even_def powr_neg_numeral)

lemma fl_value_5: "fl (136909428672063085 / 18014398509481984) = 8556839292003943 / 1125899906842624"
  using fl_eval [of "2" "136909428672063085 / 18014398509481984"] by (simp add: round_even_def powr_neg_numeral)

lemma fl_value_6: "fl (140512308373959485 / 18014398509481984) = 2195504818343117 / 281474976710656"
  using fl_eval [of "2" "140512308373959485 / 18014398509481984"] by (simp add: round_even_def powr_neg_numeral)

lemma fl_value_7: "fl (144115188075855885 / 18014398509481984) = 8"
  using fl_eval [of "3" "144115188075855885 / 18014398509481984"] by (simp add: round_even_def powr_neg_numeral)

lemma fl_value_8: "fl (147718067777752269 / 18014398509481984) = 2308094809027379 / 281474976710656"
  using fl_eval [of "3" "147718067777752269 / 18014398509481984"] by (simp add: round_even_def powr_neg_numeral)

lemma fl_value_9: "fl (151320947479648653 / 18014398509481984) = 1182194902184755 / 140737488355328"
  using fl_eval [of "3" "151320947479648653 / 18014398509481984"] by (simp add: round_even_def powr_neg_numeral)

lemma fl_value_10: "fl (5854679515581645 / 562949953421312) = 5854679515581645 / 562949953421312"
  using fl_eval [of "3" "5854679515581645 / 562949953421312"] by (simp add: round_even_def powr_neg_numeral)

lemma fl_value_11: "fl (190952624200509037 / 18014398509481984) = 5967269506265907 / 562949953421312"
  using fl_eval [of "3" "190952624200509037 / 18014398509481984"] by (simp add: round_even_def powr_neg_numeral)

lemma fl_value_12: "fl (2) = 2"
  using fl_eval [of "1" "2"] by (simp add: round_even_def powr_neg_numeral)

lemma fl_value_13: "fl 3 = 3"
  using fl_eval [of 1 3] by (simp add: round_even_def powr_neg_numeral)

lemma fl_value_14: "fl 9007199254740992 = 9007199254740992"
  using fl_eval [of 53 9007199254740992] by (simp add: round_even_def powr_neg_numeral)

lemmas fl_values =
  fl_value_0 fl_value_1 fl_value_2 fl_value_3 fl_value_4 fl_value_5 fl_value_6 fl_value_7
  fl_value_8 fl_value_9 fl_value_10 fl_value_11 fl_value_12 fl_value_13 fl_value_14

lemma duration_chunk: "duration demo_chunk = 1 / 5"
  by (simp add: demo_chunk_def duration_def)

section \<open>The playback scheduler\<close>

subsection \<open>One decoded buffer\<close>

lemma schedule_first:
  "nextStartTime s = 0 \<Longrightarrow>
   schedule now b s =
     s\<lparr>nextStartTime := now + bufferTime + duration b,
       timers := timers s @ [(bufferTime * 1000, LoadingToPlaying)],
       started := started s @ [\<lparr>src_node = outputNode s, src_when = now + bufferTime, src_buffer = b\<rparr>]\<rparr>"
  by (simp add: schedule_def Let_def bufferTime_def)


lemma schedule_in_time:
  "nextStartTime s \<noteq> 0 \<Longrightarrow> \<not> nextStartTime s < now \<Longrightarrow>
   schedule now b s =
     s\<lparr>nextStartTime := nextStartTime s + duration b,
       started := started s @ [\<lparr>src_node = outputNode s, src_when = nextStartTime s, src_buffer = b\<rparr>]\<rparr>"
  by (simp add: schedule_def Let_def bufferTime_def)

lemma timer_fired_accepting: "accepting s \<Longrightarrow> accepting (timer_fired i s)"
  by (cases "snd (timers s ! i)") (auto simp: timer_fired_def accepting_def)

lemma timer_fired_fields:
  "nextStartTime (timer_fired i s) = nextStartTime s"
  "started (timer_fired i s) = started s"
  "length (timers (timer_fired i s)) \<le> length (timers s)"
  by (cases "snd (timers s ! i)"; simp add: timer_fired_def)+

lemma timer_fired_none: "timers s = [] \<Longrightarrow> timer_fired i s = s"
  by (simp add: timer_fired_def)

text \<open>The report of an underrun appears exactly when \<open>underrun\<close> holds.\<close>

lemma underrun_reported:
  "console (schedule now b s) = console s @ [''Audio buffer underrun''] \<longleftrightarrow> underrun s now"
  by (simp add: schedule_def Let_def underrun_def bufferTime_def)

text \<open>
  A message that carries nothing but one chunk which decodes to \<open>audioBuffer\<close> is
  handled as \<open>onSegmentDecoded\<close> handles the buffer.
\<close>

lemma onmessage_audio:
  assumes "decode chunk = Inr bytes"
    and "decodeAudioData bytes (audioContext s) dj_sampleRate 2 = Inr audioBuffer"
  shows "onmessage now \<lparr>setupComplete = False, filteredPrompt = None,
                        audioChunks = Some (chunk # chunks)\<rparr> s
         = (onSegmentDecoded now audioBuffer
              (s\<lparr>console := console s @ [''Received message from the server'']\<rparr>), None)"
  using assms by (simp add: onmessage_def onSegmentDecoded_def Let_def)



text \<open>
  C3. In \<open>paused\<close> or \<open>stopped\<close>, a message is handled exactly as the same message
  without its audio chunks: nothing is decoded (so no chunk, however malformed, makes the
  callback raise), nothing is started, and the cursor, the pending timers and the state
  stay as they are. A buffer that is already decoded is ignored as well.
\<close>

theorem paused_stopped_ignore_audio:
  assumes "playbackState s = paused \<or> playbackState s = stopped"
  shows "onmessage now e s = onmessage now (e\<lparr>audioChunks := None\<rparr>) s
       \<and> snd (onmessage now e s) = None
       \<and> started (fst (onmessage now e s)) = started s
       \<and> nextStartTime (fst (onmessage now e s)) = nextStartTime s
       \<and> timers (fst (onmessage now e s)) = timers s
       \<and> playbackState (fst (onmessage now e s)) = playbackState s
       \<and> onSegmentDecoded now b s = s"
  using assms
  by (auto simp: onmessage_def onSegmentDecoded_def Let_def split: option.splits)

theorem paused_stopped_ignore_audio_witness:
  "onmessage 5 \<lparr>setupComplete = False, filteredPrompt = None, audioChunks = Some [''AAA='']\<rparr>
     (demo_dj\<lparr>playbackState := paused\<rparr>)
   = (demo_dj\<lparr>playbackState := paused,
        console := [''Received message from the server'']\<rparr>, None)
   \<and> onSegmentDecoded 5 demo_buffer (demo_dj\<lparr>playbackState := paused\<rparr>)
       = demo_dj\<lparr>playbackState := paused\<rparr>"
  using paused_stopped_ignore_audio [of "demo_dj\<lparr>playbackState := paused\<rparr>" 5
      "\<lparr>setupComplete = False, filteredPrompt = None, audioChunks = Some [''AAA='']\<rparr>" demo_buffer]
  by (simp add: demo_dj_def initial_def onmessage_def)



subsection \<open>Runs of decoded buffers\<close>

lemma accepting_segment64: "accepting s \<Longrightarrow> onSegmentDecoded64 now b s = schedule64 now b s"
  by (auto simp: accepting_def onSegmentDecoded64_def)

lemma schedule64_first:
  "nextStartTime s = 0 \<Longrightarrow> \<not> underrun64 s now \<Longrightarrow>
   schedule64 now b s =
     s\<lparr>nextStartTime := double_add (double_add now bufferTime) (fl (duration b)),
       timers := timers s @ [(bufferTime * 1000, LoadingToPlaying)],
       started := started s @
         [\<lparr>src_node = outputNode s, src_when = double_add now bufferTime, src_buffer = b\<rparr>]\<rparr>"
  by (simp add: schedule64_def underrun64_def Let_def)

lemma schedule64_in_time:
  "nextStartTime s \<noteq> 0 \<Longrightarrow> \<not> underrun64 s now \<Longrightarrow>
   schedule64 now b s =
     s\<lparr>nextStartTime := double_add (nextStartTime s) (fl (duration b)),
       started := started s @
         [\<lparr>src_node = outputNode s, src_when = nextStartTime s, src_buffer = b\<rparr>]\<rparr>"
  by (simp add: schedule64_def underrun64_def Let_def)

lemma double_add_ge_2: "2 \<le> x \<Longrightarrow> 0 \<le> d \<Longrightarrow> 2 \<le> double_add x (fl d)"
  unfolding double_add_def using fl_nonneg [of d] by (intro fl_ge_2) linarith

lemma double_add_now: "0 \<le> now \<Longrightarrow> 2 \<le> double_add now bufferTime"
  unfolding double_add_def bufferTime_def by (intro fl_ge_2) linarith

lemma run64_in_time:
  assumes "accepting s" "2 \<le> nextStartTime s" "no_underrun64 s arrivals"
    and "\<forall>a \<in> set arrivals. 0 \<le> duration (snd a)"
  shows "run_segments64 s arrivals =
           s\<lparr>nextStartTime := nextStartTime (run_segments64 s arrivals),
             started := started s @ expected64 (outputNode s) (nextStartTime s) arrivals\<rparr>
         \<and> (arrivals \<noteq> [] \<longrightarrow> nextStartTime (run_segments64 s arrivals)
              = double_add (src_when (last (expected64 (outputNode s) (nextStartTime s) arrivals)))
                  (fl (duration (src_buffer (last (expected64 (outputNode s) (nextStartTime s) arrivals))))))"
  using assms
proof (induction arrivals arbitrary: s)
  case Nil
  show ?case by simp
next
  case (Cons a arrivals)
  obtain now b where a: "a = (now, b)" by (cases a)
  let ?s' = "s\<lparr>nextStartTime := double_add (nextStartTime s) (fl (duration b)),
       started := started s @ [\<lparr>src_node = outputNode s, src_when = nextStartTime s, src_buffer = b\<rparr>]\<rparr>"
  from Cons.prems have nu: "\<not> underrun64 s now" and d: "0 \<le> duration b"
    by (auto simp: a)
  have nz: "nextStartTime s \<noteq> 0" using Cons.prems(2) by simp
  have st: "onSegmentDecoded64 now b s = ?s'"
    using Cons.prems(1) nu nz by (simp add: accepting_segment64 schedule64_in_time)
  have ih: "run_segments64 ?s' arrivals =
     ?s'\<lparr>nextStartTime := nextStartTime (run_segments64 ?s' arrivals),
             started := started ?s' @ expected64 (outputNode ?s') (nextStartTime ?s') arrivals\<rparr>
     \<and> (arrivals \<noteq> [] \<longrightarrow> nextStartTime (run_segments64 ?s' arrivals)
              = double_add (src_when (last (expected64 (outputNode ?s') (nextStartTime ?s') arrivals)))
                  (fl (duration (src_buffer (last (expected64 (outputNode ?s') (nextStartTime ?s') arrivals))))))"
  proof (rule Cons.IH)
    show "accepting ?s'" using Cons.prems(1) by (simp add: accepting_def)
    show "2 \<le> nextStartTime ?s'" using Cons.prems(2) d by (simp add: double_add_ge_2)
    show "no_underrun64 ?s' arrivals" using Cons.prems(3) st by (simp add: a)
    show "\<forall>a \<in> set arrivals. 0 \<le> duration (snd a)" using Cons.prems(4) by simp
  qed
  have r: "run_segments64 s (a # arrivals) = run_segments64 ?s' arrivals" by (simp add: a st)
  have e: "expected64 (outputNode s) (nextStartTime s) (a # arrivals)
      = \<lparr>src_node = outputNode s, src_when = nextStartTime s, src_buffer = b\<rparr>
        # expected64 (outputNode s) (double_add (nextStartTime s) (fl (duration b))) arrivals"
    by (simp add: a)
  have c1: "run_segments64 s (a # arrivals) =
           s\<lparr>nextStartTime := nextStartTime (run_segments64 s (a # arrivals)),
             started := started s @ expected64 (outputNode s) (nextStartTime s) (a # arrivals)\<rparr>"
    unfolding r e using ih [THEN conjunct1] by simp
  have c2: "nextStartTime (run_segments64 s (a # arrivals))
              = double_add (src_when (last (expected64 (outputNode s) (nextStartTime s) (a # arrivals))))
                  (fl (duration (src_buffer (last (expected64 (outputNode s) (nextStartTime s) (a # arrivals))))))"
  proof (cases "arrivals = []")
    case True
    then show ?thesis by (simp add: a st)
  next
    case False
    then have "expected64 (outputNode s) (double_add (nextStartTime s) (fl (duration b))) arrivals \<noteq> []"
      by (cases arrivals) auto
    then show ?thesis unfolding r e using ih [THEN conjunct2] False by simp
  qed
  show ?case using c1 c2 by blast
qed


lemma run64_started:
  assumes "accepting s" "nextStartTime s = 0 \<or> 2 \<le> nextStartTime s"
    and "no_underrun64 s arrivals"
    and "\<forall>a \<in> set arrivals. 0 \<le> fst a \<and> 0 \<le> duration (snd a)"
  shows "started (run_segments64 s arrivals)
           = started s @ expected64 (outputNode s) (first_start64 s arrivals) arrivals
       \<and> (arrivals \<noteq> [] \<longrightarrow> nextStartTime (run_segments64 s arrivals)
            = double_add
                (src_when (last (expected64 (outputNode s) (first_start64 s arrivals) arrivals)))
                (fl (duration (src_buffer
                   (last (expected64 (outputNode s) (first_start64 s arrivals) arrivals))))))
       \<and> playbackState (run_segments64 s arrivals) = playbackState s"
proof (cases arrivals)
  case Nil
  then show ?thesis by simp
next
  case (Cons a rest)
  obtain now b where a: "a = (now, b)" by (cases a)
  from assms(4) Cons a have now: "0 \<le> now" and d: "0 \<le> duration b"
    and rest: "\<forall>a \<in> set rest. 0 \<le> duration (snd a)" by auto
  from assms(3) Cons a have nu: "\<not> underrun64 s now"
    and nur: "no_underrun64 (onSegmentDecoded64 now b s) rest" by auto
  show ?thesis
  proof (cases "nextStartTime s = 0")
    case True
    let ?s' = "s\<lparr>nextStartTime := double_add (double_add now bufferTime) (fl (duration b)),
       timers := timers s @ [(bufferTime * 1000, LoadingToPlaying)],
       started := started s @
         [\<lparr>src_node = outputNode s, src_when = double_add now bufferTime, src_buffer = b\<rparr>]\<rparr>"
    have st: "onSegmentDecoded64 now b s = ?s'"
      using assms(1) True nu by (simp add: accepting_segment64 schedule64_first)
    have fs: "first_start64 s arrivals = double_add now bufferTime"
      using True by (simp add: first_start64_def Cons a)
    have r: "run_segments64 s arrivals = run_segments64 ?s' rest" by (simp add: Cons a st)
    have e: "expected64 (outputNode s) (double_add now bufferTime) arrivals
      = \<lparr>src_node = outputNode s, src_when = double_add now bufferTime, src_buffer = b\<rparr>
        # expected64 (outputNode s) (double_add (double_add now bufferTime) (fl (duration b))) rest"
      by (simp add: Cons a)
    have ih: "run_segments64 ?s' rest =
           ?s'\<lparr>nextStartTime := nextStartTime (run_segments64 ?s' rest),
             started := started ?s' @ expected64 (outputNode ?s') (nextStartTime ?s') rest\<rparr>
         \<and> (rest \<noteq> [] \<longrightarrow> nextStartTime (run_segments64 ?s' rest)
              = double_add (src_when (last (expected64 (outputNode ?s') (nextStartTime ?s') rest)))
                  (fl (duration (src_buffer (last (expected64 (outputNode ?s') (nextStartTime ?s') rest))))))"
    proof (rule run64_in_time)
      show "accepting ?s'" using assms(1) by (simp add: accepting_def)
      show "2 \<le> nextStartTime ?s'" using now d by (simp add: double_add_ge_2 double_add_now)
      show "no_underrun64 ?s' rest" using nur st by simp
      show "\<forall>a \<in> set rest. 0 \<le> duration (snd a)" by (rule rest)
    qed
    have c1: "started (run_segments64 s arrivals)
           = started s @ expected64 (outputNode s) (first_start64 s arrivals) arrivals"
      unfolding fs r e using arg_cong [OF ih [THEN conjunct1], of started] by simp
    have c3: "playbackState (run_segments64 s arrivals) = playbackState s"
      unfolding r using arg_cong [OF ih [THEN conjunct1], of playbackState] by simp
    have c2: "nextStartTime (run_segments64 s arrivals)
            = double_add
                (src_when (last (expected64 (outputNode s) (first_start64 s arrivals) arrivals)))
                (fl (duration (src_buffer
                   (last (expected64 (outputNode s) (first_start64 s arrivals) arrivals)))))"
    proof (cases "rest = []")
      case True
      then show ?thesis unfolding fs r e by simp
    next
      case False
      then have "expected64 (outputNode s) (double_add (double_add now bufferTime) (fl (duration b))) rest \<noteq> []"
        by (cases rest) auto
      then show ?thesis unfolding fs r e using ih [THEN conjunct2] False by simp
    qed
    show ?thesis using c1 c2 c3 by blast
  next
    case False
    then have pos: "2 \<le> nextStartTime s" using assms(2) by simp
    have fs: "first_start64 s arrivals = nextStartTime s"
      using False by (simp add: first_start64_def)
    have dur: "\<forall>a \<in> set arrivals. 0 \<le> duration (snd a)" using assms(4) by simp
    note ih = run64_in_time [OF assms(1) pos assms(3) dur]
    have c1: "started (run_segments64 s arrivals)
           = started s @ expected64 (outputNode s) (first_start64 s arrivals) arrivals"
      unfolding fs using arg_cong [OF ih [THEN conjunct1], of started] by simp
    have c3: "playbackState (run_segments64 s arrivals) = playbackState s"
      using arg_cong [OF ih [THEN conjunct1], of playbackState] by simp
    show ?thesis using c1 c3 ih [THEN conjunct2] unfolding fs by blast
  qed
qed

lemma expected64_length: "length (expected64 node start arrivals) = length arrivals"
  by (induction node start arrivals rule: expected64.induct) simp_all

lemma expected64_buffers: "map src_buffer (expected64 node start arrivals) = map snd arrivals"
  by (induction node start arrivals rule: expected64.induct) simp_all

lemma expected64_hd: "arrivals \<noteq> [] \<Longrightarrow> src_when (expected64 node start arrivals ! 0) = start"
  by (induction node start arrivals rule: expected64.induct) simp_all

lemma expected64_chain:
  assumes "Suc k < length arrivals" "2 \<le> start" "\<forall>a \<in> set arrivals. 0 \<le> duration (snd a)"
  shows "src_when (expected64 node start arrivals ! Suc k)
           = double_add (src_when (expected64 node start arrivals ! k))
               (fl (duration (src_buffer (expected64 node start arrivals ! k))))
         \<and> 2 \<le> src_when (expected64 node start arrivals ! k)"
  using assms
proof (induction node start arrivals arbitrary: k rule: expected64.induct)
  case (1 node start)
  then show ?case by simp
next
  case (2 node start now b rest)
  show ?case
  proof (cases k)
    case 0
    with 2 obtain now' b' rest' where "rest = (now', b') # rest'" by (cases rest) auto
    with 0 2(3) show ?thesis by simp
  next
    case (Suc k')
    have "2 \<le> double_add start (fl (duration b))" using 2(3,4) by (simp add: double_add_ge_2)
    with Suc 2 show ?thesis by simp
  qed
qed

lemma double_add_near:
  assumes "2 \<le> x" "0 \<le> d"
  shows "\<bar>double_add x d - (x + d)\<bar> \<le> (x + d) / 2 ^ 53"
proof -
  have "2 \<le> x + d" using assms by linarith
  then have "ulp (x + d) \<le> (x + d) / 2 ^ 52" by (rule ulp_le)
  then have "ulp (x + d) / 2 \<le> (x + d) / 2 ^ 53" by simp
  then show ?thesis unfolding double_add_def using fl_error [of "x + d"] by linarith
qed

lemma double_add_strict:
  assumes "2 \<le> x" "0 \<le> d" "x + d < 2 ^ 53 * d"
  shows "x < double_add x d"
proof -
  have "(x + d) / 2 ^ 53 < d" using assms(3) by (simp add: field_simps)
  then show ?thesis using double_add_near [OF assms(1,2)] by linarith
qed

text \<open>
  C1, as the code has it. Start in \<open>loading\<close> or \<open>playing\<close>, with the cursor at 0 or at
  least 2 as every cursor is that the code has written, and let decoded buffers arrive,
  none of them at an underrun, the clock never negative, every duration positive and
  every sum finite. Then every buffer is started, once and in the order of arrival,
  after the sources that were already there; the first at the cursor (which line 1662
  sets to the rounded \<open>now + bufferTime\<close> if it was 0), every later one at the binary64
  sum of its predecessor's start and duration. That sum is within \<open>2 ^ - 53\<close> of the
  exact sum, relative to it, and it is strictly later than the predecessor's start
  whenever start plus duration is below \<open>2 ^ 53\<close> durations. The cursor ends at the
  rounded end of the last buffer, and the state is unchanged.
\<close>

theorem sequential_schedule:
  assumes "playbackState s = loading \<or> playbackState s = playing"
    and "nextStartTime s = 0 \<or> 2 \<le> nextStartTime s"
    and "\<forall>a \<in> set arrivals. 0 \<le> fst a \<and> 0 < duration (snd a)"
    and "no_underrun64 s arrivals"
    and "finite_run64 s arrivals"
  shows "length (started (run_segments64 s arrivals)) = length (started s) + length arrivals
       \<and> take (length (started s)) (started (run_segments64 s arrivals)) = started s
       \<and> map src_buffer (drop (length (started s)) (started (run_segments64 s arrivals)))
           = map snd arrivals
       \<and> (arrivals \<noteq> [] \<longrightarrow>
            src_when (started (run_segments64 s arrivals) ! length (started s))
              = (if nextStartTime s = 0 then double_add (fst (hd arrivals)) bufferTime
                 else nextStartTime s))
       \<and> (\<forall>k. Suc k < length arrivals \<longrightarrow>
            src_when (started (run_segments64 s arrivals) ! (length (started s) + Suc k))
              = double_add
                  (src_when (started (run_segments64 s arrivals) ! (length (started s) + k)))
                  (fl (duration (src_buffer
                     (started (run_segments64 s arrivals) ! (length (started s) + k)))))
            \<and> \<bar>src_when (started (run_segments64 s arrivals) ! (length (started s) + Suc k))
                 - (src_when (started (run_segments64 s arrivals) ! (length (started s) + k))
                    + fl (duration (src_buffer
                        (started (run_segments64 s arrivals) ! (length (started s) + k)))))\<bar>
                \<le> (src_when (started (run_segments64 s arrivals) ! (length (started s) + k))
                    + fl (duration (src_buffer
                        (started (run_segments64 s arrivals) ! (length (started s) + k)))))
                   / 2 ^ 53
            \<and> (src_when (started (run_segments64 s arrivals) ! (length (started s) + k))
                 + fl (duration (src_buffer
                     (started (run_segments64 s arrivals) ! (length (started s) + k))))
                 < 2 ^ 53 * fl (duration (src_buffer
                     (started (run_segments64 s arrivals) ! (length (started s) + k))))
               \<longrightarrow> src_when (started (run_segments64 s arrivals) ! (length (started s) + k))
                   < src_when (started (run_segments64 s arrivals) ! (length (started s) + Suc k))))
       \<and> (arrivals \<noteq> [] \<longrightarrow>
            nextStartTime (run_segments64 s arrivals)
              = double_add (src_when (last (started (run_segments64 s arrivals))))
                  (fl (duration (src_buffer (last (started (run_segments64 s arrivals)))))))
       \<and> playbackState (run_segments64 s arrivals) = playbackState s"
proof -
  let ?e = "expected64 (outputNode s) (first_start64 s arrivals) arrivals"
  let ?n = "length (started s)"
  let ?r = "started (run_segments64 s arrivals)"
  have acc: "accepting s" using assms(1) by (simp add: accepting_def)
  have wf: "\<forall>a \<in> set arrivals. 0 \<le> fst a \<and> 0 \<le> duration (snd a)"
    using assms(3) by (auto intro: less_imp_le)
  have dur: "\<forall>a \<in> set arrivals. 0 \<le> duration (snd a)" using wf by simp
  note r = run64_started [OF acc assms(2,4) wf]
  have st: "?r = started s @ ?e" using r by simp
  have len: "length ?e = length arrivals" by (rule expected64_length)
  have nth: "\<And>k. ?r ! (?n + k) = ?e ! k" by (simp add: st)
  have ne: "arrivals \<noteq> [] \<Longrightarrow> ?e \<noteq> []" using len by auto
  have fs2: "arrivals \<noteq> [] \<Longrightarrow> 2 \<le> first_start64 s arrivals"
  proof -
    assume "arrivals \<noteq> []"
    then have "0 \<le> fst (hd arrivals)" using wf by (cases arrivals) auto
    then show ?thesis using assms(2) by (auto simp: first_start64_def double_add_now)
  qed
  have c1: "length ?r = ?n + length arrivals" by (simp add: st len)
  have c2: "take ?n ?r = started s" by (simp add: st)
  have c3: "map src_buffer (drop ?n ?r) = map snd arrivals" by (simp add: st expected64_buffers)
  have c4: "arrivals \<noteq> [] \<longrightarrow> src_when (?r ! ?n)
      = (if nextStartTime s = 0 then double_add (fst (hd arrivals)) bufferTime else nextStartTime s)"
    using expected64_hd [of arrivals "outputNode s" "first_start64 s arrivals"] nth [of 0]
    by (simp add: first_start64_def)
  have c5: "\<forall>k. Suc k < length arrivals \<longrightarrow>
      src_when (?r ! (?n + Suc k))
        = double_add (src_when (?r ! (?n + k))) (fl (duration (src_buffer (?r ! (?n + k)))))
      \<and> \<bar>src_when (?r ! (?n + Suc k))
           - (src_when (?r ! (?n + k)) + fl (duration (src_buffer (?r ! (?n + k)))))\<bar>
          \<le> (src_when (?r ! (?n + k)) + fl (duration (src_buffer (?r ! (?n + k))))) / 2 ^ 53
      \<and> (src_when (?r ! (?n + k)) + fl (duration (src_buffer (?r ! (?n + k))))
           < 2 ^ 53 * fl (duration (src_buffer (?r ! (?n + k))))
         \<longrightarrow> src_when (?r ! (?n + k)) < src_when (?r ! (?n + Suc k)))"
  proof (intro allI impI)
    fix k assume k: "Suc k < length arrivals"
    then have "arrivals \<noteq> []" by auto
    then have two: "2 \<le> first_start64 s arrivals" by (rule fs2)
    note ch = expected64_chain [OF k two dur, of "outputNode s"]
    let ?x = "src_when (?e ! k)"
    let ?d = "fl (duration (src_buffer (?e ! k)))"
    have "src_buffer (?e ! k) = map src_buffer ?e ! k" using k len by simp
    also have "\<dots> = snd (arrivals ! k)" using k by (simp add: expected64_buffers)
    finally have "0 \<le> duration (src_buffer (?e ! k))" using dur k by simp
    then have d0: "0 \<le> ?d" by (rule fl_nonneg)
    have x2: "2 \<le> ?x" using ch by simp
    have eq: "src_when (?e ! Suc k) = double_add ?x ?d" using ch by simp
    have near: "\<bar>src_when (?e ! Suc k) - (?x + ?d)\<bar> \<le> (?x + ?d) / 2 ^ 53"
      unfolding eq using x2 d0 by (rule double_add_near)
    have strict: "?x + ?d < 2 ^ 53 * ?d \<longrightarrow> ?x < src_when (?e ! Suc k)"
      unfolding eq using double_add_strict [OF x2 d0] by blast
    show "src_when (?r ! (?n + Suc k))
        = double_add (src_when (?r ! (?n + k))) (fl (duration (src_buffer (?r ! (?n + k)))))
      \<and> \<bar>src_when (?r ! (?n + Suc k))
           - (src_when (?r ! (?n + k)) + fl (duration (src_buffer (?r ! (?n + k)))))\<bar>
          \<le> (src_when (?r ! (?n + k)) + fl (duration (src_buffer (?r ! (?n + k))))) / 2 ^ 53
      \<and> (src_when (?r ! (?n + k)) + fl (duration (src_buffer (?r ! (?n + k))))
           < 2 ^ 53 * fl (duration (src_buffer (?r ! (?n + k))))
         \<longrightarrow> src_when (?r ! (?n + k)) < src_when (?r ! (?n + Suc k)))"
      unfolding nth using eq near strict by blast
  qed
  have c6: "arrivals \<noteq> [] \<longrightarrow> nextStartTime (run_segments64 s arrivals)
              = double_add (src_when (last ?r)) (fl (duration (src_buffer (last ?r))))"
    using r ne by (simp add: st)
  have c7: "playbackState (run_segments64 s arrivals) = playbackState s" using r by simp
  show ?thesis using c1 c2 c3 c4 c5 c6 c7 by blast
qed

lemmas run64_simps =
  onSegmentDecoded64_def schedule64_def underrun64_def Let_def demo_dj_def initial_def
  bufferTime_def double_add_def duration_chunk finite64_def

theorem sequential_schedule_witness:
  "no_underrun64 (demo_dj\<lparr>playbackState := loading, nextStartTime := 2\<rparr>) [(0, demo_chunk), (1, demo_chunk)]
   \<and> finite_run64 (demo_dj\<lparr>playbackState := loading, nextStartTime := 2\<rparr>) [(0, demo_chunk), (1, demo_chunk)]
   \<and> map src_when (started (run_segments64 (demo_dj\<lparr>playbackState := loading, nextStartTime := 2\<rparr>) [(0, demo_chunk), (1, demo_chunk)]))
       = [2, 2476979795053773 / 1125899906842624]
   \<and> nextStartTime (run_segments64 (demo_dj\<lparr>playbackState := loading, nextStartTime := 2\<rparr>) [(0, demo_chunk), (1, demo_chunk)]) = 1351079888211149 / 562949953421312"
  using sequential_schedule [of "(demo_dj\<lparr>playbackState := loading, nextStartTime := 2\<rparr>)" "[(0, demo_chunk), (1, demo_chunk)]"]
  by (simp add: run64_simps fl_values)

text \<open>
  C1 as the specification words it, with starts exactly equal to the sum of the
  predecessor's start and duration and strictly increasing for every positive duration,
  fails. With the cursor at 2, two buffers of 9600 frames at 48000 Hz that arrive at
  clock 0 and 1 start at 2 and at \<open>2476979795053773 / 2 ^ 50\<close>, which is neither 2 plus
  the duration \<open>1 / 5\<close> nor 2 plus the double nearest to \<open>1 / 5\<close>. With the cursor at
  \<open>2 ^ 53\<close> the rounding absorbs the duration, and both buffers start at \<open>2 ^ 53\<close>.
\<close>

theorem exact_sum_counterexample:
  "no_underrun64 (demo_dj\<lparr>playbackState := loading, nextStartTime := 2\<rparr>) [(0, demo_chunk), (1, demo_chunk)]
   \<and> src_when (started (run_segments64 (demo_dj\<lparr>playbackState := loading, nextStartTime := 2\<rparr>) [(0, demo_chunk), (1, demo_chunk)]) ! 1)
       \<noteq> src_when (started (run_segments64 (demo_dj\<lparr>playbackState := loading, nextStartTime := 2\<rparr>) [(0, demo_chunk), (1, demo_chunk)]) ! 0)
         + duration (src_buffer (started (run_segments64 (demo_dj\<lparr>playbackState := loading, nextStartTime := 2\<rparr>) [(0, demo_chunk), (1, demo_chunk)]) ! 0))
   \<and> src_when (started (run_segments64 (demo_dj\<lparr>playbackState := loading, nextStartTime := 2\<rparr>) [(0, demo_chunk), (1, demo_chunk)]) ! 1)
       \<noteq> src_when (started (run_segments64 (demo_dj\<lparr>playbackState := loading, nextStartTime := 2\<rparr>) [(0, demo_chunk), (1, demo_chunk)]) ! 0)
         + fl (duration (src_buffer (started (run_segments64 (demo_dj\<lparr>playbackState := loading, nextStartTime := 2\<rparr>) [(0, demo_chunk), (1, demo_chunk)]) ! 0)))
   \<and> 0 < duration demo_chunk
   \<and> no_underrun64 (demo_dj\<lparr>playbackState := loading, nextStartTime := 9007199254740992\<rparr>) [(9007199254740990, demo_chunk), (9007199254740990, demo_chunk)]
   \<and> map src_when (started (run_segments64 (demo_dj\<lparr>playbackState := loading, nextStartTime := 9007199254740992\<rparr>) [(9007199254740990, demo_chunk), (9007199254740990, demo_chunk)]))
       = [9007199254740992, 9007199254740992]"
  by (simp add: run64_simps fl_values)

text \<open>
  The rounding decides the test of line 1669. Six such buffers arrive at the doubles
  nearest to 5.4, 5.6, 5.8, 6, 6.2 and 8.4, the first with the cursor at 0. After five
  of them the cursor is \<open>1182194902184755 / 2 ^ 47\<close>, the double just below the one
  nearest to 8.4, so the sixth arrival is an underrun and its buffer starts at the double
  nearest to 10.4.
\<close>

lemma rounded_sums_underrun:
  "map src_when (started (run_segments64 (demo_dj\<lparr>playbackState := loading\<rparr>)
     [(3039929748475085 / 562949953421312, demo_chunk),
      (3152519739159347 / 562949953421312, demo_chunk),
      (6530219459687219 / 1125899906842624, demo_chunk),
      (6, demo_chunk),
      (6980579422424269 / 1125899906842624, demo_chunk),
      (4728779608739021 / 562949953421312, demo_chunk)]))
   = [4165829655317709 / 562949953421312, 8556839292003943 / 1125899906842624, 2195504818343117 / 281474976710656, 8, 2308094809027379 / 281474976710656, 5854679515581645 / 562949953421312]
   \<and> console (run_segments64 (demo_dj\<lparr>playbackState := loading\<rparr>)
     [(3039929748475085 / 562949953421312, demo_chunk),
      (3152519739159347 / 562949953421312, demo_chunk),
      (6530219459687219 / 1125899906842624, demo_chunk),
      (6, demo_chunk),
      (6980579422424269 / 1125899906842624, demo_chunk),
      (4728779608739021 / 562949953421312, demo_chunk)]) = [''Audio buffer underrun'']"
proof -
  have s1: "onSegmentDecoded64 (3039929748475085 / 562949953421312) demo_chunk
      (demo_dj\<lparr>playbackState := loading\<rparr>)
    = demo_dj\<lparr>playbackState := loading, nextStartTime := 8556839292003943 / 1125899906842624,
        timers := [(2000, LoadingToPlaying)],
        console := [],
        started := [\<lparr>src_node = 0, src_when = 4165829655317709 / 562949953421312, src_buffer = demo_chunk\<rparr>]\<rparr>"
    by (simp add: run64_simps fl_values)
  have s2: "onSegmentDecoded64 (3152519739159347 / 562949953421312) demo_chunk
      (demo_dj\<lparr>playbackState := loading, nextStartTime := 8556839292003943 / 1125899906842624,
        timers := [(2000, LoadingToPlaying)],
        console := [],
        started := [\<lparr>src_node = 0, src_when = 4165829655317709 / 562949953421312, src_buffer = demo_chunk\<rparr>]\<rparr>)
    = demo_dj\<lparr>playbackState := loading, nextStartTime := 2195504818343117 / 281474976710656,
        timers := [(2000, LoadingToPlaying)],
        console := [],
        started := [\<lparr>src_node = 0, src_when = 4165829655317709 / 562949953421312, src_buffer = demo_chunk\<rparr>,
          \<lparr>src_node = 0, src_when = 8556839292003943 / 1125899906842624, src_buffer = demo_chunk\<rparr>]\<rparr>"
    by (simp add: run64_simps fl_values)
  have s3: "onSegmentDecoded64 (6530219459687219 / 1125899906842624) demo_chunk
      (demo_dj\<lparr>playbackState := loading, nextStartTime := 2195504818343117 / 281474976710656,
        timers := [(2000, LoadingToPlaying)],
        console := [],
        started := [\<lparr>src_node = 0, src_when = 4165829655317709 / 562949953421312, src_buffer = demo_chunk\<rparr>,
          \<lparr>src_node = 0, src_when = 8556839292003943 / 1125899906842624, src_buffer = demo_chunk\<rparr>]\<rparr>)
    = demo_dj\<lparr>playbackState := loading, nextStartTime := 8,
        timers := [(2000, LoadingToPlaying)],
        console := [],
        started := [\<lparr>src_node = 0, src_when = 4165829655317709 / 562949953421312, src_buffer = demo_chunk\<rparr>,
          \<lparr>src_node = 0, src_when = 8556839292003943 / 1125899906842624, src_buffer = demo_chunk\<rparr>,
          \<lparr>src_node = 0, src_when = 2195504818343117 / 281474976710656, src_buffer = demo_chunk\<rparr>]\<rparr>"
    by (simp add: run64_simps fl_values)
  have s4: "onSegmentDecoded64 (6) demo_chunk
      (demo_dj\<lparr>playbackState := loading, nextStartTime := 8,
        timers := [(2000, LoadingToPlaying)],
        console := [],
        started := [\<lparr>src_node = 0, src_when = 4165829655317709 / 562949953421312, src_buffer = demo_chunk\<rparr>,
          \<lparr>src_node = 0, src_when = 8556839292003943 / 1125899906842624, src_buffer = demo_chunk\<rparr>,
          \<lparr>src_node = 0, src_when = 2195504818343117 / 281474976710656, src_buffer = demo_chunk\<rparr>]\<rparr>)
    = demo_dj\<lparr>playbackState := loading, nextStartTime := 2308094809027379 / 281474976710656,
        timers := [(2000, LoadingToPlaying)],
        console := [],
        started := [\<lparr>src_node = 0, src_when = 4165829655317709 / 562949953421312, src_buffer = demo_chunk\<rparr>,
          \<lparr>src_node = 0, src_when = 8556839292003943 / 1125899906842624, src_buffer = demo_chunk\<rparr>,
          \<lparr>src_node = 0, src_when = 2195504818343117 / 281474976710656, src_buffer = demo_chunk\<rparr>,
          \<lparr>src_node = 0, src_when = 8, src_buffer = demo_chunk\<rparr>]\<rparr>"
    by (simp add: run64_simps fl_values)
  have s5: "onSegmentDecoded64 (6980579422424269 / 1125899906842624) demo_chunk
      (demo_dj\<lparr>playbackState := loading, nextStartTime := 2308094809027379 / 281474976710656,
        timers := [(2000, LoadingToPlaying)],
        console := [],
        started := [\<lparr>src_node = 0, src_when = 4165829655317709 / 562949953421312, src_buffer = demo_chunk\<rparr>,
          \<lparr>src_node = 0, src_when = 8556839292003943 / 1125899906842624, src_buffer = demo_chunk\<rparr>,
          \<lparr>src_node = 0, src_when = 2195504818343117 / 281474976710656, src_buffer = demo_chunk\<rparr>,
          \<lparr>src_node = 0, src_when = 8, src_buffer = demo_chunk\<rparr>]\<rparr>)
    = demo_dj\<lparr>playbackState := loading, nextStartTime := 1182194902184755 / 140737488355328,
        timers := [(2000, LoadingToPlaying)],
        console := [],
        started := [\<lparr>src_node = 0, src_when = 4165829655317709 / 562949953421312, src_buffer = demo_chunk\<rparr>,
          \<lparr>src_node = 0, src_when = 8556839292003943 / 1125899906842624, src_buffer = demo_chunk\<rparr>,
          \<lparr>src_node = 0, src_when = 2195504818343117 / 281474976710656, src_buffer = demo_chunk\<rparr>,
          \<lparr>src_node = 0, src_when = 8, src_buffer = demo_chunk\<rparr>,
          \<lparr>src_node = 0, src_when = 2308094809027379 / 281474976710656, src_buffer = demo_chunk\<rparr>]\<rparr>"
    by (simp add: run64_simps fl_values)
  have s6: "onSegmentDecoded64 (4728779608739021 / 562949953421312) demo_chunk
      (demo_dj\<lparr>playbackState := loading, nextStartTime := 1182194902184755 / 140737488355328,
        timers := [(2000, LoadingToPlaying)],
        console := [],
        started := [\<lparr>src_node = 0, src_when = 4165829655317709 / 562949953421312, src_buffer = demo_chunk\<rparr>,
          \<lparr>src_node = 0, src_when = 8556839292003943 / 1125899906842624, src_buffer = demo_chunk\<rparr>,
          \<lparr>src_node = 0, src_when = 2195504818343117 / 281474976710656, src_buffer = demo_chunk\<rparr>,
          \<lparr>src_node = 0, src_when = 8, src_buffer = demo_chunk\<rparr>,
          \<lparr>src_node = 0, src_when = 2308094809027379 / 281474976710656, src_buffer = demo_chunk\<rparr>]\<rparr>)
    = demo_dj\<lparr>playbackState := loading, nextStartTime := 5967269506265907 / 562949953421312,
        timers := [(2000, LoadingToPlaying)],
        console := [''Audio buffer underrun''],
        started := [\<lparr>src_node = 0, src_when = 4165829655317709 / 562949953421312, src_buffer = demo_chunk\<rparr>,
          \<lparr>src_node = 0, src_when = 8556839292003943 / 1125899906842624, src_buffer = demo_chunk\<rparr>,
          \<lparr>src_node = 0, src_when = 2195504818343117 / 281474976710656, src_buffer = demo_chunk\<rparr>,
          \<lparr>src_node = 0, src_when = 8, src_buffer = demo_chunk\<rparr>,
          \<lparr>src_node = 0, src_when = 2308094809027379 / 281474976710656, src_buffer = demo_chunk\<rparr>,
          \<lparr>src_node = 0, src_when = 5854679515581645 / 562949953421312, src_buffer = demo_chunk\<rparr>]\<rparr>"
    by (simp add: run64_simps fl_values)
  have "run_segments64 (demo_dj\<lparr>playbackState := loading\<rparr>)
     [(3039929748475085 / 562949953421312, demo_chunk),
      (3152519739159347 / 562949953421312, demo_chunk),
      (6530219459687219 / 1125899906842624, demo_chunk),
      (6, demo_chunk),
      (6980579422424269 / 1125899906842624, demo_chunk),
      (4728779608739021 / 562949953421312, demo_chunk)]
    = demo_dj\<lparr>playbackState := loading, nextStartTime := 5967269506265907 / 562949953421312,
        timers := [(2000, LoadingToPlaying)],
        console := [''Audio buffer underrun''],
        started := [\<lparr>src_node = 0, src_when = 4165829655317709 / 562949953421312, src_buffer = demo_chunk\<rparr>,
          \<lparr>src_node = 0, src_when = 8556839292003943 / 1125899906842624, src_buffer = demo_chunk\<rparr>,
          \<lparr>src_node = 0, src_when = 2195504818343117 / 281474976710656, src_buffer = demo_chunk\<rparr>,
          \<lparr>src_node = 0, src_when = 8, src_buffer = demo_chunk\<rparr>,
          \<lparr>src_node = 0, src_when = 2308094809027379 / 281474976710656, src_buffer = demo_chunk\<rparr>,
          \<lparr>src_node = 0, src_when = 5854679515581645 / 562949953421312, src_buffer = demo_chunk\<rparr>]\<rparr>"
    by (simp only: run_segments64.simps s1 s2 s3 s4 s5 s6)
  then show ?thesis by simp
qed

subsection \<open>Arrivals and timers after an underrun\<close>

lemma schedule64_timers: "nextStartTime s \<noteq> 0 \<Longrightarrow> timers (schedule64 now b s) = timers s"
  by (simp add: schedule64_def Let_def)

lemma schedule64_started: "length (started (schedule64 now b s)) = Suc (length (started s))"
  by (simp add: schedule64_def Let_def)

lemma schedule64_accepting: "accepting s \<Longrightarrow> accepting (schedule64 now b s)"
  by (simp add: schedule64_def Let_def accepting_def)

lemma schedule64_loading: "playbackState s = loading \<Longrightarrow> playbackState (schedule64 now b s) = loading"
  by (simp add: schedule64_def Let_def)

text \<open>
  Every cursor that the scheduling writes is at least 2: it is \<open>now + bufferTime\<close> or a
  cursor of at least 2, plus a duration, each sum rounded.
\<close>

lemma schedule64_cursor:
  assumes "0 \<le> now" "0 \<le> duration b"
  shows "2 \<le> nextStartTime (schedule64 now b s) \<or> nextStartTime s \<noteq> 0 \<and> nextStartTime s < 2"
proof -
  have a: "2 \<le> double_add (double_add now bufferTime) (fl (duration b))"
    using assms by (simp add: double_add_ge_2 double_add_now)
  have b: "2 \<le> nextStartTime s \<Longrightarrow> 2 \<le> double_add (nextStartTime s) (fl (duration b))"
    using assms(2) by (simp add: double_add_ge_2)
  show ?thesis using a b by (auto simp: schedule64_def Let_def)
qed

lemma schedule64_ge_2:
  "0 \<le> now \<Longrightarrow> 0 \<le> duration b \<Longrightarrow> 2 \<le> nextStartTime s \<Longrightarrow>
   2 \<le> nextStartTime (schedule64 now b s)"
  using schedule64_cursor [of now b s] by auto

lemma schedule64_underrun:
  "nextStartTime s \<noteq> 0 \<Longrightarrow> nextStartTime s < now \<Longrightarrow>
   schedule64 now b s =
     s\<lparr>nextStartTime := double_add (double_add now bufferTime) (fl (duration b)),
       playbackState := loading,
       console := console s @ [''Audio buffer underrun''],
       started := started s @
         [\<lparr>src_node = outputNode s, src_when = double_add now bufferTime, src_buffer = b\<rparr>]\<rparr>"
  by (simp add: schedule64_def Let_def)

lemma run64_never_arms:
  assumes "accepting s" "2 \<le> nextStartTime s" "\<forall>ev \<in> set evs. wf_event ev"
  shows "length (timers (run64 s evs)) \<le> length (timers s)
       \<and> length (started (run64 s evs)) = length (started s) + length (filter is_segment evs)
       \<and> 2 \<le> nextStartTime (run64 s evs)"
  using assms
proof (induction evs arbitrary: s)
  case Nil
  then show ?case by (simp add: run64_def)
next
  case (Cons ev evs)
  have r: "run64 s (ev # evs) = run64 (step64 ev s) evs" by (simp add: run64_def)
  show ?case
  proof (cases ev)
    case (Segment now b)
    with Cons.prems have wf: "0 \<le> now" "0 \<le> duration b" by auto
    have st: "step64 ev s = schedule64 now b s"
      using Cons.prems(1) Segment by (simp add: accepting_segment64)
    have nz: "nextStartTime s \<noteq> 0" using Cons.prems(2) by simp
    have "length (timers (run64 (step64 ev s) evs)) \<le> length (timers (step64 ev s))
       \<and> length (started (run64 (step64 ev s) evs))
           = length (started (step64 ev s)) + length (filter is_segment evs)
       \<and> 2 \<le> nextStartTime (run64 (step64 ev s) evs)"
      using Cons.prems wf unfolding st
      by (intro Cons.IH schedule64_accepting schedule64_ge_2) auto
    then show ?thesis using nz unfolding r st
      by (simp add: schedule64_timers schedule64_started Segment)
  next
    case (Timer i)
    have st: "step64 ev s = timer_fired i s" using Timer by simp
    have "length (timers (run64 (step64 ev s) evs)) \<le> length (timers (step64 ev s))
       \<and> length (started (run64 (step64 ev s) evs))
           = length (started (step64 ev s)) + length (filter is_segment evs)
       \<and> 2 \<le> nextStartTime (run64 (step64 ev s) evs)"
      using Cons.prems unfolding st
      by (intro Cons.IH timer_fired_accepting) (auto simp: timer_fired_fields)
    moreover have "length (timers (timer_fired i s)) \<le> length (timers s)"
      by (rule timer_fired_fields)
    ultimately show ?thesis unfolding r st
      by (simp add: timer_fired_fields(1,2) Timer)
  qed
qed

lemma run64_stays_loading:
  assumes "playbackState s = loading" "timers s = []" "2 \<le> nextStartTime s"
    and "\<forall>ev \<in> set evs. wf_event ev"
  shows "playbackState (run64 s evs) = loading \<and> timers (run64 s evs) = []"
  using assms
proof (induction evs arbitrary: s)
  case Nil
  then show ?case by (simp add: run64_def)
next
  case (Cons ev evs)
  have r: "run64 s (ev # evs) = run64 (step64 ev s) evs" by (simp add: run64_def)
  show ?case
  proof (cases ev)
    case (Segment now b)
    with Cons.prems have wf: "0 \<le> now" "0 \<le> duration b" by auto
    have st: "step64 ev s = schedule64 now b s"
      using Cons.prems(1) Segment by (simp add: accepting_segment64 accepting_def)
    have nz: "nextStartTime s \<noteq> 0" using Cons.prems(3) by simp
    show ?thesis unfolding r st
      using Cons.prems wf nz
      by (intro Cons.IH schedule64_loading schedule64_ge_2) (auto simp: schedule64_timers)
  next
    case (Timer i)
    then have st: "step64 ev s = s" using Cons.prems(2) by (simp add: timer_fired_none)
    show ?thesis unfolding r st using Cons.prems by (intro Cons.IH) auto
  qed
qed

text \<open>
  C10, as the code has it. An arrival at an underrun adds no timer and leaves the state
  \<open>loading\<close> and the cursor away from 0. Whatever arrivals and timer firings follow, the
  number of pending timers never grows and every arriving buffer is still started. If
  no timer armed earlier was still pending at the underrun, the state is \<open>loading\<close>
  after each of them: only a call of \<open>pauseAudio\<close>, \<open>stopAudio\<close> or \<open>loadAudio\<close>, which
  these runs do not contain, assigns the state again. A timer that was still pending at
  the underrun is not cancelled, and sets \<open>playing\<close> when it fires.
\<close>

theorem no_timer_after_underrun:
  assumes "playbackState s = loading \<or> playbackState s = playing"
    and "underrun s now"
    and "0 \<le> now" and "0 \<le> duration b"
    and "\<forall>ev \<in> set evs. wf_event ev"
  shows "timers (onSegmentDecoded64 now b s) = timers s
       \<and> playbackState (onSegmentDecoded64 now b s) = loading
       \<and> nextStartTime (onSegmentDecoded64 now b s) \<noteq> 0
       \<and> length (timers (run64 (onSegmentDecoded64 now b s) evs)) \<le> length (timers s)
       \<and> length (started (run64 (onSegmentDecoded64 now b s) evs))
           = length (started s) + 1 + length (filter is_segment evs)
       \<and> (timers s = [] \<longrightarrow>
            playbackState (run64 (onSegmentDecoded64 now b s) evs) = loading
            \<and> timers (run64 (onSegmentDecoded64 now b s) evs) = [])
       \<and> (\<forall>i < length (timers s).
            playbackState (timer_fired i (onSegmentDecoded64 now b s)) = playing)"
proof -
  let ?s' = "onSegmentDecoded64 now b s"
  have acc: "accepting s" using assms(1) by (simp add: accepting_def)
  have eq: "?s' = schedule64 now b s" using acc by (rule accepting_segment64)
  have u: "nextStartTime s \<noteq> 0" "nextStartTime s < now" using assms(2) by (simp_all add: underrun_def)
  have t: "timers ?s' = timers s" using u by (simp add: eq schedule64_timers)
  have p: "playbackState ?s' = loading" using u by (simp add: eq schedule64_underrun)
  have n: "2 \<le> nextStartTime ?s'"
    using u assms(3,4) by (simp add: eq schedule64_underrun double_add_ge_2 double_add_now)
  have st: "length (started ?s') = length (started s) + 1" by (simp add: eq schedule64_started)
  have acc': "accepting ?s'" using p by (simp add: accepting_def)
  note a = run64_never_arms [OF acc' n assms(5)]
  have b: "timers s = [] \<longrightarrow> playbackState (run64 ?s' evs) = loading \<and> timers (run64 ?s' evs) = []"
    using run64_stays_loading [OF p _ n assms(5)] t by simp
  have c: "\<forall>i < length (timers s). playbackState (timer_fired i ?s') = playing"
  proof (intro allI impI)
    fix i assume "i < length (timers s)"
    then have i: "i < length (timers ?s')" by (simp only: t)
    show "playbackState (timer_fired i ?s') = playing"
      using i p by (cases "snd (timers ?s' ! i)") (simp add: timer_fired_def)
  qed
  show ?thesis using t p n a b c st by simp
qed

theorem no_timer_after_underrun_witness:
  "underrun (demo_dj\<lparr>playbackState := playing, nextStartTime := 7\<rparr>) 10
   \<and> playbackState (run64 (onSegmentDecoded64 10 demo_chunk (demo_dj\<lparr>playbackState := playing, nextStartTime := 7\<rparr>))
         [Segment 11 demo_chunk, Timer 0, Segment 20 demo_chunk]) = loading
   \<and> timers (run64 (onSegmentDecoded64 10 demo_chunk (demo_dj\<lparr>playbackState := playing, nextStartTime := 7\<rparr>))
         [Segment 11 demo_chunk, Timer 0, Segment 20 demo_chunk]) = []
   \<and> length (started (run64 (onSegmentDecoded64 10 demo_chunk (demo_dj\<lparr>playbackState := playing, nextStartTime := 7\<rparr>))
         [Segment 11 demo_chunk, Timer 0, Segment 20 demo_chunk])) = 3"
  using no_timer_after_underrun [of "(demo_dj\<lparr>playbackState := playing, nextStartTime := 7\<rparr>)" 10 demo_chunk "[Segment 11 demo_chunk, Timer 0, Segment 20 demo_chunk]"]
  by (simp add: demo_dj_def initial_def duration_chunk underrun_def)

text \<open>
  C10 as the specification words it, with the state \<open>loading\<close> until the user or the
  connection changes it, fails when a timer is still pending at the underrun: with the
  cursor at 7 and the clock at 10 the arrival sets \<open>loading\<close>, and the timer armed before
  sets \<open>playing\<close> as soon as it fires.
\<close>

theorem pending_timer_counterexample:
  "underrun (demo_dj\<lparr>playbackState := loading, nextStartTime := 7, timers := [(2000, LoadingToPlaying)]\<rparr>) 10
   \<and> playbackState (onSegmentDecoded64 10 demo_chunk (demo_dj\<lparr>playbackState := loading, nextStartTime := 7, timers := [(2000, LoadingToPlaying)]\<rparr>)) = loading
   \<and> playbackState (run64 (onSegmentDecoded64 10 demo_chunk (demo_dj\<lparr>playbackState := loading, nextStartTime := 7, timers := [(2000, LoadingToPlaying)]\<rparr>)) [Timer 0]) = playing"
  by (simp add: run64_def onSegmentDecoded64_def schedule64_def Let_def timer_fired_def
      underrun_def demo_dj_def initial_def)

section \<open>The audio buffer builder\<close>

lemma fold_fill_length:
  "length (fold (\<lambda>j cd. if j < length cd then cd[j := f j] else cd) js cd) = length cd"
  by (induction js arbitrary: cd) simp_all

lemma fold_fill_nth:
  "j < length cd \<Longrightarrow> j < k \<Longrightarrow>
   fold (\<lambda>j cd. if j < length cd then cd[j := f j] else cd) [0 ..< k] cd ! j = f j"
proof (induction k)
  case 0
  then show ?case by simp
next
  case (Suc k)
  let ?cd = "fold (\<lambda>j cd. if j < length cd then cd[j := f j] else cd) [0 ..< k] cd"
  have len: "length ?cd = length cd" by (rule fold_fill_length)
  show ?case
  proof (cases "j = k")
    case True
    then show ?thesis using Suc.prems len by simp
  next
    case False
    then have "j < k" using Suc.prems by simp
    then have "?cd ! j = f j" using Suc by simp
    then show ?thesis using False len by simp
  qed
qed

lemma fill_channel_length: "0 \<le> x \<Longrightarrow> length (fill_channel d nc i (Num x)) = nat \<lfloor>x\<rfloor>"
  by (simp add: fill_channel_def fold_fill_length js_trunc_def)

lemma fill_channel_nth:
  assumes "0 \<le> x" "j < nat \<lfloor>x\<rfloor>"
  shows "fill_channel d nc i (Num x) ! j = d ! (j * nc + i)"
proof -
  have "\<lfloor>x\<rfloor> \<le> \<lceil>x\<rceil>" by (rule floor_le_ceiling)
  then have "j < nat \<lceil>x\<rceil>" using assms(2) by linarith
  then show ?thesis using assms
    by (simp add: fill_channel_def js_trunc_def fold_fill_nth)
qed

lemma int16_view_length: "length (int16_view bytes n) = min n (length bytes div 2)"
  by (induction bytes n rule: int16_view.induct) simp_all

lemma int16_view_nth:
  "k < n \<Longrightarrow> 2 * k + 1 < length bytes \<Longrightarrow>
   int16_view bytes n ! k = word_cat (bytes ! (2 * k + 1)) (bytes ! (2 * k))"
proof (induction bytes n arbitrary: k rule: int16_view.induct)
  case (1 lo hi rest n)
  then show ?case by (cases k) simp_all
qed simp_all

lemma byteLength_div: "(if (n::nat) mod 2 = 0 then n else n - 1) div 2 = n div 2"
proof (cases "even n")
  case True
  then show ?thesis by (simp add: even_iff_mod_2_eq_zero)
next
  case False
  then obtain k where "n = 2 * k + 1" by (auto elim: oddE)
  then show ?thesis by simp
qed

lemma decodeSamples_length: "length (decodeSamples bytes) = length bytes div 2"
  by (simp add: decodeSamples_def int16_view_length Let_def byteLength_div del: One_nat_def)

lemma decodeSamples_nth:
  assumes "k < length bytes div 2"
  shows "decodeSamples bytes ! k = wire_sample bytes k"
proof -
  have "2 * k + 1 < length bytes" using assms by linarith
  then show ?thesis using assms
    by (simp add: decodeSamples_def wire_sample_def int16_view_nth int16_view_length Let_def
        byteLength_div del: One_nat_def)
qed

lemma copyToChannel_Inr:
  assumes "copyToChannel src i buffer = Inr buf"
  shows "i < numberOfChannels buffer"
    and "frames buf = frames buffer"
    and "numberOfChannels buf = numberOfChannels buffer"
    and "sampleRate buf = sampleRate buffer"
    and "channelData buf = (channelData buffer)
           [i := take (frames buffer) src @ drop (length src) (channelData buffer ! i)]"
  using assms by (auto simp: copyToChannel_def split: if_splits)

lemma copy_channels_Inr:
  assumes "copy_channels d nc bl is buffer = Inr buf" "distinct is"
    and "length (channelData buffer) = numberOfChannels buffer"
  shows "frames buf = frames buffer \<and> numberOfChannels buf = numberOfChannels buffer
       \<and> sampleRate buf = sampleRate buffer
       \<and> length (channelData buf) = numberOfChannels buffer
       \<and> (\<forall>i \<in> set is. i < numberOfChannels buffer
            \<and> channelData buf ! i
                = take (frames buffer) (fill_channel d nc i bl)
                  @ drop (length (fill_channel d nc i bl)) (channelData buffer ! i))
       \<and> (\<forall>i. i \<notin> set is \<longrightarrow> channelData buf ! i = channelData buffer ! i)"
  using assms
proof (induction "is" arbitrary: buffer)
  case Nil
  then show ?case by simp
next
  case (Cons i "is")
  from Cons.prems(1) obtain buffer' where
    c: "copyToChannel (fill_channel d nc i bl) i buffer = Inr buffer'"
    and r: "copy_channels d nc bl is buffer' = Inr buf"
    by (auto split: sum.splits)
  note p = copyToChannel_Inr [OF c]
  have len': "length (channelData buffer') = numberOfChannels buffer'"
    using p Cons.prems(3) by simp
  have d: "distinct is" "i \<notin> set is" using Cons.prems(2) by simp_all
  note ih = Cons.IH [OF r d(1) len']
  have i: "i < length (channelData buffer)" using p(1) Cons.prems(3) by simp
  have "channelData buf ! i = channelData buffer' ! i" using ih d(2) by blast
  also have "\<dots> = take (frames buffer) (fill_channel d nc i bl)
                  @ drop (length (fill_channel d nc i bl)) (channelData buffer ! i)"
    using i by (simp add: p(5))
  finally have hd: "channelData buf ! i = take (frames buffer) (fill_channel d nc i bl)
                  @ drop (length (fill_channel d nc i bl)) (channelData buffer ! i)" .
  have tl: "\<forall>k \<in> set is. k < numberOfChannels buffer
            \<and> channelData buf ! k
                = take (frames buffer) (fill_channel d nc k bl)
                  @ drop (length (fill_channel d nc k bl)) (channelData buffer ! k)"
  proof
    fix k assume k: "k \<in> set is"
    then have "k \<noteq> i" using d(2) by auto
    then have "channelData buffer' ! k = channelData buffer ! k" by (simp add: p(5))
    then show "k < numberOfChannels buffer
            \<and> channelData buf ! k
                = take (frames buffer) (fill_channel d nc k bl)
                  @ drop (length (fill_channel d nc k bl)) (channelData buffer ! k)"
      using ih k p by simp
  qed
  have other: "\<forall>k. k \<notin> set (i # is) \<longrightarrow> channelData buf ! k = channelData buffer ! k"
  proof (intro allI impI)
    fix k assume "k \<notin> set (i # is)"
    then have "k \<noteq> i" "k \<notin> set is" by auto
    then show "channelData buf ! k = channelData buffer ! k" using ih by (simp add: p(5))
  qed
  show ?case using ih p hd tl other by simp
qed

lemma createBuffer_Inr:
  assumes "createBuffer ctx c n rate = Inr buffer"
  shows "numberOfChannels buffer = to_uint32 c" "frames buffer = to_uint32 n"
    "sampleRate buffer = rate" "channelData buffer = replicate (to_uint32 c) (replicate (to_uint32 n) 0)"
    "0 < to_uint32 c" "to_uint32 c \<le> maxChannels ctx" "0 < to_uint32 n"
    "minSampleRate ctx \<le> rate" "rate \<le> maxSampleRate ctx"
  using assms by (auto simp: createBuffer_def Let_def split: if_splits)

lemma half_length: "even (length bytes) \<Longrightarrow> real (length bytes) / 2 = real (length bytes div 2)"
  by (auto elim!: evenE)

lemma floor_ratio: "\<lfloor>real l / real nc\<rfloor> = int (l div nc)"
  by (metis floor_divide_of_nat_eq of_int_of_nat_eq of_nat_div floor_of_int) 


lemma js_div_Num: "b \<noteq> 0 \<Longrightarrow> js_div a b = Num (a / b)"
  by (simp add: js_div_def)

lemma js_trunc_ratio: "js_trunc (real l / real nc) = int (l div nc)"
proof -
  have "0 \<le> real l / real nc" by simp
  then have "js_trunc (real l / real nc) = \<lfloor>real l / real nc\<rfloor>"
    by (simp only: js_trunc_def if_True)
  then show ?thesis by (simp only: floor_ratio)
qed

lemma nat_int_mod: "nat (int k mod 2 ^ 32) = k mod 2 ^ 32"
proof -
  have "int k mod 2 ^ 32 = int (k mod 2 ^ 32)" by (simp add: zmod_int)
  then show ?thesis by (simp only: nat_int)
qed

lemma to_uint32_ratio: "to_uint32 (Num (real l / real nc)) = (l div nc) mod 2 ^ 32"
  by (simp only: to_uint32.simps js_trunc_ratio nat_int_mod)

lemma to_uint32_nat: "to_uint32 (Num (real n)) = n mod 2 ^ 32"
  using to_uint32_ratio [of n 1] by simp

lemma fill_channel_ratio:
  "length (fill_channel d k i (Num (real l / real nc))) = l div nc"
  "j < l div nc \<Longrightarrow> fill_channel d k i (Num (real l / real nc)) ! j = d ! (j * k + i)"
proof -
  have x: "0 \<le> real l / real nc" by simp
  have fl: "nat \<lfloor>real l / real nc\<rfloor> = l div nc" by (simp only: floor_ratio nat_int)
  show "length (fill_channel d k i (Num (real l / real nc))) = l div nc"
    using fill_channel_length [OF x, of d k i] by (simp only: fl)
  show "fill_channel d k i (Num (real l / real nc)) ! j = d ! (j * k + i)" if "j < l div nc"
  proof -
    have "j < nat \<lfloor>real l / real nc\<rfloor>" using that by (simp only: fl)
    with x show ?thesis by (rule fill_channel_nth)
  qed
qed


lemma decodeAudioData_multi:
  assumes ev: "even (length bytes)" and nc: "1 < numChannels" and ne: "bytes \<noteq> []"
    and ok: "decodeAudioData bytes ctx rate numChannels = Inr buf"
  shows "numberOfChannels buf = nat numChannels
       \<and> frames buf = (length bytes div 2 div nat numChannels) mod 2 ^ 32
       \<and> sampleRate buf = rate
       \<and> length (channelData buf) = nat numChannels
       \<and> (\<forall>c < nat numChannels.
            channelData buf ! c
              = map (\<lambda>j. decodeSamples bytes ! (j * nat numChannels + c)) [0 ..< frames buf])"
proof -
  let ?l = "length bytes div 2"
  let ?nc = "nat numChannels"
  let ?x = "real ?l / real ?nc"
  let ?d = "decodeSamples bytes"
  have ncr: "real_of_int numChannels = real ?nc" using nc by simp
  have nc0: "real ?nc \<noteq> 0" using nc by simp
  have l1: "1 \<le> ?l" using ev ne by (cases bytes; cases "tl bytes"; auto)
  have x0: "0 < ?x" using l1 nc by simp
  have e: "(if length bytes mod 2 = 0 then length bytes else length bytes - 1) = length bytes"
    using ev by (simp add: even_iff_mod_2_eq_zero)
  have h: "real (length bytes) / 2 = real ?l" using ev by (rule half_length)
  have bl: "js_div (real (if length bytes mod 2 = 0 then length bytes else length bytes - 1) / 2)
              (real_of_int numChannels) = Num ?x"
    by (simp only: e h ncr js_div_Num [OF nc0])
  have nz: "Num ?x \<noteq> Num 0" using x0 l1 nc by simp
  have n1: "numChannels \<noteq> 1" "1 < numChannels" using nc by simp_all
  have body: "decodeAudioData bytes ctx rate numChannels
      = (case createBuffer ctx (Num (real ?nc)) (Num ?x) rate of
           Inl e \<Rightarrow> Inl e
         | Inr buffer \<Rightarrow> copy_channels ?d ?nc (Num ?x) [0 ..< ?nc] buffer)"
    unfolding decodeAudioData_def Let_def bl
    by (simp only: nz n1 if_False if_True ncr)
  from ok obtain buffer where
    cb: "createBuffer ctx (Num (real ?nc)) (Num ?x) rate = Inr buffer"
    and cc: "copy_channels ?d ?nc (Num ?x) [0 ..< ?nc] buffer = Inr buf"
    unfolding body by (cases "createBuffer ctx (Num (real ?nc)) (Num ?x) rate") simp_all
  note b = createBuffer_Inr [OF cb]
  have fr: "frames buffer = (?l div ?nc) mod 2 ^ 32"
    by (simp only: b(2) to_uint32_ratio)
  have lenb: "length (channelData buffer) = numberOfChannels buffer"
    by (simp only: b(1,4) length_replicate)
  have dist: "distinct [0 ..< ?nc]" by simp
  note c = copy_channels_Inr [OF cc dist lenb]
  have chn: "numberOfChannels buffer = ?nc"
  proof -
    have "?nc - 1 \<in> set [0 ..< ?nc]" using nc by simp
    then have "?nc - 1 < numberOfChannels buffer" using c by blast
    moreover have "numberOfChannels buffer = ?nc mod 2 ^ 32"
      by (simp only: b(1) to_uint32_nat)
    moreover have "?nc mod 2 ^ 32 \<le> ?nc" by (rule mod_less_eq_dividend)
    ultimately show ?thesis using nc by linarith
  qed
  have frle: "frames buffer \<le> ?l div ?nc" unfolding fr by (rule mod_less_eq_dividend)
  have fb: "frames buf = frames buffer" using c by blast
  have chan: "\<forall>c < ?nc. channelData buf ! c
              = map (\<lambda>j. ?d ! (j * ?nc + c)) [0 ..< frames buf]"
  proof (intro allI impI)
    fix ch assume ch: "ch < ?nc"
    then have chs: "ch \<in> set [0 ..< ?nc]" by simp
    have cd: "channelData buffer = replicate (numberOfChannels buffer) (replicate (frames buffer) 0)"
      by (simp only: b(1,2,4))
    have "ch < numberOfChannels buffer" using ch by (simp only: chn)
    then have "channelData buffer ! ch = replicate (frames buffer) 0"
      by (simp only: cd nth_replicate)
    then have "length (channelData buffer ! ch) = frames buffer"
      by (simp only: length_replicate)
    then have old: "drop (?l div ?nc) (channelData buffer ! ch) = []"
      using frle by simp
    have "channelData buf ! ch = take (frames buffer) (fill_channel ?d ?nc ch (Num ?x))
                  @ drop (length (fill_channel ?d ?nc ch (Num ?x))) (channelData buffer ! ch)"
      using c chs by blast
    also have "\<dots> = take (frames buffer) (fill_channel ?d ?nc ch (Num ?x))"
      by (simp only: fill_channel_ratio(1) old append_Nil2)
    also have "\<dots> = map (\<lambda>j. ?d ! (j * ?nc + ch)) [0 ..< frames buffer]"
    proof (rule nth_equalityI)
      show "length (take (frames buffer) (fill_channel ?d ?nc ch (Num ?x)))
          = length (map (\<lambda>j. ?d ! (j * ?nc + ch)) [0 ..< frames buffer])"
        using frle by (simp add: fill_channel_ratio(1))
    next
      fix j assume "j < length (take (frames buffer) (fill_channel ?d ?nc ch (Num ?x)))"
      then have j: "j < frames buffer" by simp
      then have "j < ?l div ?nc" using frle by linarith
      then have "fill_channel ?d ?nc ch (Num ?x) ! j = ?d ! (j * ?nc + ch)"
        by (rule fill_channel_ratio(2))
      then show "take (frames buffer) (fill_channel ?d ?nc ch (Num ?x)) ! j
          = map (\<lambda>j. ?d ! (j * ?nc + ch)) [0 ..< frames buffer] ! j"
        using j by simp
    qed
    finally show "channelData buf ! ch = map (\<lambda>j. ?d ! (j * ?nc + ch)) [0 ..< frames buf]"
      by (simp only: fb)
  qed
  have c1: "numberOfChannels buf = ?nc" using c chn by simp
  have c2: "frames buf = (?l div ?nc) mod 2 ^ 32" using fb fr by simp
  have c3: "sampleRate buf = rate" using c b(3) by simp
  have c4: "length (channelData buf) = ?nc" using c chn by simp
  show ?thesis using c1 c2 c3 c4 chan by blast
qed

lemma frame_index:
  assumes "j < l div nc" "c < (nc::nat)"
  shows "j * nc + c < l"
proof -
  have "j * nc + c < (j + 1) * nc" using assms(2) by simp
  also have "\<dots> \<le> (l div nc) * nc" using assms(1) by (intro mult_le_mono1) simp
  also have "\<dots> \<le> l" by simp
  finally show ?thesis .
qed

text \<open>
  C9. For an input of even length that is not empty and more than one channel, whenever
  \<open>decodeAudioData\<close> returns a buffer, frame \<open>j\<close> of channel \<open>c\<close> is the wire sample at
  flat index \<open>j * numChannels + c\<close>, which lies within the input; the buffer has
  \<open>numChannels\<close> channels of as many frames as the input has whole frames (modulo
  \<open>2 ^ 32\<close>, the conversion of the length that \<open>createBuffer\<close> receives).
\<close>

theorem deinterleave:
  assumes "even (length bytes)" and "1 < numChannels" and "bytes \<noteq> []"
    and "decodeAudioData bytes ctx rate numChannels = Inr buf"
    and "c < nat numChannels" and "j < frames buf"
  shows "channelData buf ! c ! j = wire_sample bytes (j * nat numChannels + c)
       \<and> j * nat numChannels + c < length bytes div 2
       \<and> numberOfChannels buf = nat numChannels
       \<and> length (channelData buf) = nat numChannels
       \<and> length (channelData buf ! c) = frames buf
       \<and> frames buf = length bytes div 2 div nat numChannels mod 2 ^ 32
       \<and> sampleRate buf = rate"
proof -
  note m = decodeAudioData_multi [OF assms(1-4)]
  have "frames buf \<le> length bytes div 2 div nat numChannels"
    using m mod_less_eq_dividend [of "length bytes div 2 div nat numChannels" "2 ^ 32"] by simp
  then have "j < length bytes div 2 div nat numChannels" using assms(6) by simp
  then have idx: "j * nat numChannels + c < length bytes div 2"
    using assms(5) by (rule frame_index)
  have ch: "channelData buf ! c = map (\<lambda>j. decodeSamples bytes ! (j * nat numChannels + c)) [0 ..< frames buf]"
    using m assms(5) by blast
  have "channelData buf ! c ! j = decodeSamples bytes ! (j * nat numChannels + c)"
    using assms(6) by (simp add: ch)
  also have "\<dots> = wire_sample bytes (j * nat numChannels + c)"
    using idx by (rule decodeSamples_nth)
  finally show ?thesis using idx m ch by simp
qed

lemma upt_2: "[0 ..< 2] = [0, Suc 0]"
  by (simp add: upt_rec numeral_2_eq_2)

text \<open>
  The example of the specification: the interleaved samples \<open>L0, R0, L1, R1\<close> for two
  channels give the channels \<open>[L0, L1]\<close> and \<open>[R0, R1]\<close>.
\<close>

lemma stereo_example:
  assumes "2 \<le> maxChannels ctx" "minSampleRate ctx \<le> rate" "rate \<le> maxSampleRate ctx"
  shows "decodeAudioData (uint8_view [L0, R0, L1, R1]) ctx rate 2
         = Inr \<lparr>numberOfChannels = 2, frames = 2, sampleRate = rate,
                channelData = [[decode_sample L0, decode_sample L1],
                               [decode_sample R0, decode_sample R1]]\<rparr>"
proof -
  have d: "decodeSamples (uint8_view [L0, R0, L1, R1])
      = [decode_sample L0, decode_sample R0, decode_sample L1, decode_sample R1]"
    by (simp add: decodeSamples_encode)
  have len: "length (uint8_view [L0, R0, L1, R1]) = 8" by (simp add: len_view)
  have f: "\<And>i. fill_channel [decode_sample L0, decode_sample R0, decode_sample L1, decode_sample R1] 2 i (Num 2)
      = [[decode_sample L0, decode_sample R0, decode_sample L1, decode_sample R1] ! i,
         [decode_sample L0, decode_sample R0, decode_sample L1, decode_sample R1] ! (2 + i)]"
    by (simp add: fill_channel_def js_trunc_def upt_2 numeral_2_eq_2)
  have c: "createBuffer ctx (Num 2) (Num 2) rate
      = Inr \<lparr>numberOfChannels = 2, frames = 2, sampleRate = rate,
                channelData = [[0, 0], [0, 0]]\<rparr>"
    using assms by (simp add: createBuffer_def js_trunc_def numeral_2_eq_2)
  show ?thesis
    unfolding decodeAudioData_def Let_def len d
    by (simp add: js_div_def c upt_2 f copyToChannel_def)
qed

lemma demo_decode:
  "decodeAudioData [1, 0, 2, 0, 3, 0, 4, 0] demo_context 48000 2 = Inr demo_buffer"
proof -
  have "uint8_view [1, 2, 3, 4] = [1, 0, 2, 0, 3, 0, 4, 0]"
    by (simp add: uint8_view_def int16_bytes_def)
  then show ?thesis
    using stereo_example [of demo_context 48000 1 2 3 4]
    by (simp add: demo_context_def demo_buffer_def decode_sample_def)
qed

theorem deinterleave_witness:
  "decodeAudioData [1, 0, 2, 0, 3, 0, 4, 0] demo_context 48000 2 = Inr demo_buffer
   \<and> channelData demo_buffer ! 1 ! 0 = wire_sample [1, 0, 2, 0, 3, 0, 4, 0] 1
   \<and> channelData demo_buffer ! 0 ! 1 = wire_sample [1, 0, 2, 0, 3, 0, 4, 0] 2
   \<and> channelData demo_buffer ! 1 ! 1 = 1 / 8192"
proof -
  have e: "even (length [1, 0, 2, 0, 3, 0, 4, 0 :: byte])" by simp
  have n: "[1, 0, 2, 0, 3, 0, 4, 0 :: byte] \<noteq> []" by simp
  have f: "frames demo_buffer = 2" by (simp add: demo_buffer_def)
  have a: "channelData demo_buffer ! 1 ! 0 = wire_sample [1, 0, 2, 0, 3, 0, 4, 0] (0 * nat 2 + 1)"
    using deinterleave [OF e _ n demo_decode, of 1 0] f by simp
  have b: "channelData demo_buffer ! 0 ! 1 = wire_sample [1, 0, 2, 0, 3, 0, 4, 0] (1 * nat 2 + 0)"
    using deinterleave [OF e _ n demo_decode, of 0 1] f by simp
  have c: "channelData demo_buffer ! 1 ! 1 = 1 / 8192" by (simp add: demo_buffer_def)
  show ?thesis using a b c demo_decode by simp
qed

subsection \<open>Inputs that are decoded, and inputs that raise\<close>

lemma copy_channels_succeeds:
  "\<forall>i \<in> set is. i < numberOfChannels buffer \<Longrightarrow>
   \<exists>buf. copy_channels d nc bl is buffer = Inr buf"
proof (induction "is" arbitrary: buffer)
  case Nil
  show ?case by simp
next
  case (Cons i "is")
  let ?b = "buffer\<lparr>channelData := (channelData buffer)
                  [i := take (frames buffer) (fill_channel d nc i bl)
                        @ drop (length (fill_channel d nc i bl)) (channelData buffer ! i)]\<rparr>"
  have c: "copyToChannel (fill_channel d nc i bl) i buffer = Inr ?b"
    using Cons.prems by (simp add: copyToChannel_def)
  have "\<forall>k \<in> set is. k < numberOfChannels ?b" using Cons.prems by simp
  then have "\<exists>buf. copy_channels d nc bl is ?b = Inr buf" by (rule Cons.IH)
  then show ?case by (simp only: copy_channels.simps c sum.case)
qed

lemma byteLength_half:
  "real (if length bytes mod 2 = 0 then length bytes else length bytes - 1) / 2
     = real (length bytes div 2)"
proof (cases "even (length bytes)")
  case True
  then obtain k where k: "length bytes = 2 * k" by (auto elim: evenE)
  show ?thesis unfolding k by simp
next
  case False
  then obtain k where k: "length bytes = 2 * k + 1" by (auto elim: oddE)
  show ?thesis unfolding k by simp
qed

text \<open>
  With a channel count and a sample rate that the context supports, an input of at least
  one whole frame is decoded.
\<close>

lemma decodeAudioData_succeeds:
  assumes "1 \<le> numChannels" "nat numChannels \<le> maxChannels ctx" "nat numChannels < 2 ^ 32"
    and "minSampleRate ctx \<le> rate" "rate \<le> maxSampleRate ctx"
    and "nat numChannels \<le> length bytes div 2"
    and "length bytes div 2 div nat numChannels < 2 ^ 32"
  shows "\<exists>buf. decodeAudioData bytes ctx rate numChannels = Inr buf"
proof -
  let ?l = "length bytes div 2"
  let ?nc = "nat numChannels"
  let ?x = "real ?l / real ?nc"
  have ncr: "real_of_int numChannels = real ?nc" using assms(1) by simp
  have nc0: "real ?nc \<noteq> 0" using assms(1) by simp
  have l1: "1 \<le> ?l" using assms(1,6) by linarith
  have bl: "js_div (real (if length bytes mod 2 = 0 then length bytes else length bytes - 1) / 2)
              (real_of_int numChannels) = Num ?x"
    by (simp only: byteLength_half ncr js_div_Num [OF nc0])
  have nz: "Num ?x \<noteq> Num 0" using l1 assms(1) by simp
  have fpos: "0 < ?l div ?nc" using assms(1,6) by (simp add: div_greater_zero_iff)
  have u1: "to_uint32 (Num (real ?nc)) = ?nc"
    using assms(3) by (simp only: to_uint32_nat mod_less)
  have u2: "to_uint32 (Num ?x) = ?l div ?nc"
    using assms(7) by (simp only: to_uint32_ratio mod_less)
  let ?buffer = "\<lparr>numberOfChannels = ?nc, frames = ?l div ?nc, sampleRate = rate,
                   channelData = replicate ?nc (replicate (?l div ?nc) 0)\<rparr>"
  have pos: "0 < ?nc" using assms(1) by simp
  have cb: "createBuffer ctx (Num (real ?nc)) (Num ?x) rate = Inr ?buffer"
    unfolding createBuffer_def Let_def u1 u2 using assms(2,4,5) fpos pos by simp
  have cb': "createBuffer ctx (Num (real_of_int numChannels)) (Num ?x) rate = Inr ?buffer"
    using cb by (simp only: ncr)
  have body: "decodeAudioData bytes ctx rate numChannels
      = (if numChannels = 1 then copyToChannel (decodeSamples bytes) 0 ?buffer
         else if 1 < numChannels
         then copy_channels (decodeSamples bytes) ?nc (Num ?x) [0 ..< ?nc] ?buffer
         else createBuffer ctx (Num 1) (Num 1) rate)"
    unfolding decodeAudioData_def Let_def bl
    by (simp only: nz if_False cb' sum.case)
  show ?thesis
  proof (cases "numChannels = 1")
    case True
    have "copyToChannel (decodeSamples bytes) 0 ?buffer
        = Inr (?buffer\<lparr>channelData := (channelData ?buffer)
             [0 := take (frames ?buffer) (decodeSamples bytes)
                   @ drop (length (decodeSamples bytes)) (channelData ?buffer ! 0)]\<rparr>)"
      using pos by (simp add: copyToChannel_def)
    then have "\<exists>buf. copyToChannel (decodeSamples bytes) 0 ?buffer = Inr buf" by blast
    moreover have "decodeAudioData bytes ctx rate numChannels
        = copyToChannel (decodeSamples bytes) 0 ?buffer"
      unfolding body by (rule if_P [OF True])
    ultimately show ?thesis by (simp only:)
  next
    case False
    then have m: "1 < numChannels" using assms(1) by simp
    have "\<exists>buf. copy_channels (decodeSamples bytes) ?nc (Num ?x) [0 ..< ?nc] ?buffer = Inr buf"
      by (rule copy_channels_succeeds) simp
    moreover have "decodeAudioData bytes ctx rate numChannels
        = copy_channels (decodeSamples bytes) ?nc (Num ?x) [0 ..< ?nc] ?buffer"
      unfolding body if_not_P [OF False] by (rule if_P [OF m])
    ultimately show ?thesis by (simp only:)
  qed
qed

text \<open>
  An input without a whole sample gives the silent buffer of one frame when the number
  of channels is positive and supported.
\<close>

lemma empty_input_silent:
  assumes "length bytes < 2" "0 < numChannels"
    and "minSampleRate ctx \<le> rate" "rate \<le> maxSampleRate ctx"
    and "nat numChannels \<le> maxChannels ctx" "nat numChannels < 2 ^ 32"
  shows "decodeAudioData bytes ctx rate numChannels
         = Inr \<lparr>numberOfChannels = nat numChannels, frames = 1, sampleRate = rate,
                channelData = replicate (nat numChannels) [0]\<rparr>"
proof -
  have ncr: "real_of_int numChannels = real (nat numChannels)" using assms(2) by simp
  have nc0: "real (nat numChannels) \<noteq> 0" using assms(2) by simp
  have z: "length bytes div 2 = 0" using assms(1) by simp
  have bl: "js_div (real (if length bytes mod 2 = 0 then length bytes else length bytes - 1) / 2)
              (real_of_int numChannels) = Num 0"
    by (simp only: byteLength_half ncr js_div_Num [OF nc0] z) simp
  have u1: "to_uint32 (Num (real (nat numChannels))) = nat numChannels"
    using assms(6) by (simp only: to_uint32_nat mod_less)
  have u2: "to_uint32 (Num 1) = 1" using to_uint32_nat [of 1] by simp
  have pos: "0 < nat numChannels" using assms(2) by simp
  have i: "(if 0 < numChannels then numChannels else 1) = numChannels"
    using assms(2) by simp
  have "decodeAudioData bytes ctx rate numChannels
      = createBuffer ctx (Num (real (nat numChannels))) (Num 1) rate"
    unfolding decodeAudioData_def Let_def bl by (simp only: simp_thms if_True i ncr)
  also have "\<dots> = Inr \<lparr>numberOfChannels = nat numChannels, frames = 1, sampleRate = rate,
                channelData = replicate (nat numChannels) [0]\<rparr>"
    unfolding createBuffer_def Let_def u1 u2 using assms(3,4,5) pos by simp
  finally show ?thesis .
qed

text \<open>
  C6 fails on the code. Two bytes for two channels are half a frame: \<open>bufferLength\<close> is
  \<open>0.5\<close>, which is not \<open>0\<close>, so the guard of line 50 does not apply, and \<open>createBuffer\<close>
  is called with a length that converts to 0 frames and raises, whatever the context
  supports.
\<close>

theorem short_input_throws: "decodeAudioData [0, 0] ctx 48000 2 = Inl NotSupportedError"
  by (simp add: decodeAudioData_def js_div_def createBuffer_def js_trunc_def Let_def)

text \<open>
  Nor is the fallback of line 84 reached for \<open>numChannels = 0\<close>: the division gives
  \<open>NaN\<close> or \<open>Infinity\<close>, and \<open>createBuffer\<close> raises at line 56 for zero channels.
\<close>

lemma zero_channels_throw: "decodeAudioData bytes ctx rate 0 = Inl NotSupportedError"
  by (simp add: decodeAudioData_def js_div_def createBuffer_def js_trunc_def Let_def)

lemma atob_AAA: "atob ''AAA='' = Some [0, 0]"
  by code_simp

text \<open>The server can send such a chunk; the callback then raises and starts nothing.\<close>

lemma short_chunk_raises:
  "playbackState s = loading \<Longrightarrow>
   onmessage now \<lparr>setupComplete = False, filteredPrompt = None, audioChunks = Some [''AAA='']\<rparr> s
     = (s\<lparr>console := console s @ [''Received message from the server'']\<rparr>, Some NotSupportedError)"
  by (simp add: onmessage_def decode_def atob_AAA dj_sampleRate_def
      decodeAudioData_def js_div_def createBuffer_def js_trunc_def Let_def)

section \<open>Throttled updates\<close>

lemma throttle_calls_forwarded:
  "throttle_calls func delay calls (lastCall, s) =
     (if forwarded delay lastCall calls = [] then lastCall else fst (last (forwarded delay lastCall calls)),
      fold (\<lambda>(now, args). func args) (forwarded delay lastCall calls) s)"
proof (induction calls arbitrary: lastCall s)
  case Nil
  show ?case by simp
next
  case (Cons c calls)
  obtain now args where c: "c = (now, args)" by (cases c)
  show ?case
  proof (cases "delay \<le> now - lastCall")
    case True
    then show ?thesis using Cons [of now "func args s"] by (simp add: c throttle_def)
  next
    case False
    then show ?thesis using Cons [of lastCall s] by (simp add: c throttle_def)
  qed
qed

lemma forwarded_hd: "forwarded delay lastCall calls \<noteq> [] \<Longrightarrow> delay \<le> fst (hd (forwarded delay lastCall calls)) - lastCall"
  by (induction calls arbitrary: lastCall) (auto split: if_splits)

lemma forwarded_gaps:
  "Suc k < length (forwarded delay lastCall calls) \<Longrightarrow>
   delay \<le> fst (forwarded delay lastCall calls ! Suc k) - fst (forwarded delay lastCall calls ! k)"
proof (induction calls arbitrary: lastCall k)
  case Nil
  then show ?case by simp
next
  case (Cons c calls)
  obtain now args where c: "c = (now, args)" by (cases c)
  show ?case
  proof (cases "delay \<le> now - lastCall")
    case True
    then have f: "forwarded delay lastCall (c # calls) = (now, args) # forwarded delay now calls"
      by (simp add: c)
    show ?thesis
    proof (cases k)
      case 0
      then have "forwarded delay now calls \<noteq> []" using Cons.prems f by auto
      then show ?thesis using forwarded_hd [of delay now calls] 0 f by (simp add: hd_conv_nth)
    next
      case (Suc k')
      then show ?thesis using Cons.IH [of k' now] Cons.prems f by simp
    qed
  next
    case False
    then show ?thesis using Cons.IH [of k lastCall] Cons.prems by (simp add: c)
  qed
qed

lemma forwarded_burst:
  "delay \<le> now - lastCall \<Longrightarrow> \<forall>c \<in> set rest. fst c - now < delay \<Longrightarrow>
   forwarded delay lastCall ((now, args) # rest) = [(now, args)]"
proof -
  have "\<forall>c \<in> set rest. fst c - now < delay \<Longrightarrow> forwarded delay now rest = []"
    by (induction rest) auto
  then show "delay \<le> now - lastCall \<Longrightarrow> \<forall>c \<in> set rest. fst c - now < delay \<Longrightarrow>
   forwarded delay lastCall ((now, args) # rest) = [(now, args)]" by simp
qed

lemma setSessionPrompts_dropped:
  "now - promptsLastCall d < 200 \<Longrightarrow> setSessionPrompts now outcome d = d"
  by (simp add: setSessionPrompts_def throttle_def)

lemma setSessionPrompts_sent:
  assumes "200 \<le> now - promptsLastCall d" "session d" "\<not> connectionError d"
  shows "setSessionPrompts now None d
         = d\<lparr>commands := commands d @
               [SetWeightedPrompts
                  (filter (\<lambda>p. prompt_text p \<notin> filteredPrompts d \<and> weight p \<noteq> 0)
                     (map snd (prompts d)))],
             promptsLastCall := now\<rparr>"
  using assms by (simp add: setSessionPrompts_def throttle_def setSessionPrompts_func_def)

text \<open>
  C7, as the code has it. \<open>throttle\<close> lets a call through, at once and with the
  arguments and the state of that moment, exactly when at least \<open>delay\<close> milliseconds
  have gone by since the last call it let through; every other call is dropped and
  leaves nothing behind. So the calls that reach \<open>func\<close> are at least \<open>delay\<close> apart, and
  of a burst of calls within \<open>delay\<close> of its first call only the first one is let
  through. For the prompts the delay is 200: a call sooner than that changes nothing at
  all, and a call that is let through on a usable session sends the prompts as they are
  then, without the filtered ones and those of weight 0.
\<close>

theorem throttle_leading_edge:
  "throttle_calls func delay calls (lastCall, s)
     = (if forwarded delay lastCall calls = [] then lastCall
        else fst (last (forwarded delay lastCall calls)),
        fold (\<lambda>(now, args). func args) (forwarded delay lastCall calls) s)
   \<and> (\<forall>k. Suc k < length (forwarded delay lastCall calls) \<longrightarrow>
          delay \<le> fst (forwarded delay lastCall calls ! Suc k)
                    - fst (forwarded delay lastCall calls ! k))
   \<and> (delay \<le> now - lastCall \<longrightarrow> (\<forall>c \<in> set rest. fst c - now < delay) \<longrightarrow>
          forwarded delay lastCall ((now, args) # rest) = [(now, args)])
   \<and> (now - promptsLastCall d < 200 \<longrightarrow> setSessionPrompts now outcome d = d)
   \<and> (200 \<le> now - promptsLastCall d \<longrightarrow> session d \<longrightarrow> \<not> connectionError d \<longrightarrow>
          setSessionPrompts now None d
            = d\<lparr>commands := commands d @
                  [SetWeightedPrompts
                     (filter (\<lambda>p. prompt_text p \<notin> filteredPrompts d \<and> weight p \<noteq> 0)
                        (map snd (prompts d)))],
                promptsLastCall := now\<rparr>)"
  using throttle_calls_forwarded [of func delay calls lastCall s]
    forwarded_gaps [of _ delay lastCall calls]
    forwarded_burst [of delay now lastCall rest args]
    setSessionPrompts_dropped [of now d outcome]
    setSessionPrompts_sent [of now d]
  by blast

theorem throttle_leading_edge_witness:
  "throttle_calls (\<lambda>a log. log @ [a]) 200
     [(1000, ''A''), (1100, ''B''), (1150, ''C''), (1300, ''D'')] (0, [])
   = (1300, [''A'', ''D''])
   \<and> forwarded 200 0 [(1000, ''A''), (1100, ''B''), (1150, ''C''), (1300, ''D'')]
       = [(1000, ''A''), (1300, ''D'')]
   \<and> forwarded 200 0 [(1000, ''A''), (1100, ''B''), (1150, ''C'')] = [(1000, ''A'')]
   \<and> setSessionPrompts 1000 None (demo_dj\<lparr>promptsLastCall := 900\<rparr>)
       = demo_dj\<lparr>promptsLastCall := 900\<rparr>
   \<and> setSessionPrompts 1200 None (demo_dj\<lparr>promptsLastCall := 900\<rparr>)
       = demo_dj\<lparr>promptsLastCall := 1200, commands := [SetWeightedPrompts []]\<rparr>"
  using throttle_leading_edge [of "\<lambda>a log. log @ [a]" 200
      "[(1000, ''A''), (1100, ''B''), (1150, ''C''), (1300, ''D'')]" 0 "[]"
      1000 "[(1100, ''B''), (1150, ''C'')]" "''A''"
      "demo_dj\<lparr>promptsLastCall := 900\<rparr>" None]
    throttle_leading_edge [of "\<lambda>a log. log @ [a]" 200 "[]" 0 "[]" 1200 "[]" "''A''"
      "demo_dj\<lparr>promptsLastCall := 900\<rparr>" None]
  by (simp add: demo_dj_def initial_def demo_prompt_def throttle_def)

text \<open>
  C7 as the specification words it fails: of two changes of a prompt's weight, 100
  milliseconds apart, the first (weight \<open>1/2\<close>) is sent and the second (weight \<open>9/10\<close>) is
  dropped, so the transport is left with a state that is not the latest.
\<close>

theorem throttle_drops_latest_counterexample:
  "commands (handlePromptChanged 1700000000100 None (demo_prompt\<lparr>weight := 9 / 10\<rparr>)
      (handlePromptChanged 1700000000000 None (demo_prompt\<lparr>weight := 1 / 2\<rparr>) demo_dj))
     = [SetWeightedPrompts [demo_prompt\<lparr>weight := 1 / 2\<rparr>]]
   \<and> map snd (prompts (handlePromptChanged 1700000000100 None (demo_prompt\<lparr>weight := 9 / 10\<rparr>)
      (handlePromptChanged 1700000000000 None (demo_prompt\<lparr>weight := 1 / 2\<rparr>) demo_dj)))
     = [demo_prompt\<lparr>weight := 9 / 10\<rparr>]"
  by (simp add: handlePromptChanged_def setSessionPrompts_def throttle_def
      setSessionPrompts_func_def demo_dj_def initial_def demo_prompt_def)

end
